theory Spec2Isabelle
  imports Complex_Main "HOL-Library.Word"
begin

section \<open>The random number generator interface (random.c), linear-congruential backend\<close>

text \<open>
  The development embeds the \<^verbatim>\<open>RANDOM_LCG\<close> branch of \<^verbatim>\<open>random.c\<close>: the engine state,
  the 64-bit linear-congruential step, the uniform batch loop with its scalar wrapper, and
  the two Box-Muller batch loops (geometric and common form) with their scalar wrapper.

  The header \<^verbatim>\<open>random.h\<close> is not part of the sources at hand; for this backend the engine
  state \<^verbatim>\<open>random_data\<close> is a struct with the single field \<^verbatim>\<open>uint64_t r\<close>.
\<close>

subsection \<open>Engine state and the linear-congruential step\<close>

record random_data =
  r :: "64 word"

definition random_lcg_init :: "random_data \<Rightarrow> 64 word \<Rightarrow> random_data" where
  "random_lcg_init rdata seed = rdata\<lparr>r := seed\<rparr>"

text \<open>
  \<^verbatim>\<open>random_lcg_integer\<close> stores \<^verbatim>\<open>a * rdata->r + b\<close> (unsigned 64-bit arithmetic, which
  wraps) and returns the stored word. The result pairs the returned value with the updated
  state.
\<close>

definition random_lcg_integer :: "random_data \<Rightarrow> 64 word \<times> random_data" where
  "random_lcg_integer rdata =
     (let a = 2862933555777941757;
          b = 3037000493;
          rdata' = rdata\<lparr>r := a * r rdata + b\<rparr>
      in (r rdata', rdata'))"

subsection \<open>Double precision values\<close>

text \<open>
  A \<^verbatim>\<open>double\<close> is an IEEE 754 binary64 value: a finite number, an infinity or a NaN.
  Finite values are kept as the real number they denote, so the two zeros are one value here;
  the only operation that tells them apart in this program is a division by zero, which the
  model reads as a division by +0 (the program's only variable divisor is a sum of squares).
\<close>

datatype double = Fin real | PInf | NInf | NaN

text \<open>
  Rounding to nearest, ties to even, at 53 significant bits: the spacing of the doubles
  around \<open>x\<close> is \<open>2 ^ (e - 52)\<close> for \<open>2 ^ e \<le> \<bar>x\<bar> < 2 ^ (e + 1)\<close>, with \<open>e\<close> cut off below at
  \<open>-1022\<close> (subnormal range); results of magnitude \<open>2 ^ 1024\<close> overflow to an infinity.
  Every arithmetic operation rounds its exact result once: the expressions are evaluated in
  \<^verbatim>\<open>double\<close>, without extended precision and without fusing a product into a sum.
\<close>

definition round_half_even :: "real \<Rightarrow> int" where
  "round_half_even x =
     (let f = \<lfloor>x\<rfloor>; d = x - of_int f
      in if d < 1 / 2 then f else if 1 / 2 < d then f + 1 else if even f then f else f + 1)"

definition quantum :: "real \<Rightarrow> real" where
  "quantum x = 2 powi (max \<lfloor>log 2 \<bar>x\<bar>\<rfloor> (- 1022) - 52)"

definition round_to :: "real \<Rightarrow> real \<Rightarrow> real" where
  "round_to q x = q * of_int (round_half_even (x / q))"

definition round_double :: "real \<Rightarrow> double" where
  "round_double x =
     (if x = 0 then Fin 0
      else let y = round_to (quantum x) x
           in if 2 ^ 1024 \<le> \<bar>y\<bar> then (if 0 < x then PInf else NInf) else Fin y)"

text \<open>The conversion \<^verbatim>\<open>(double) x\<close> of an unsigned 64-bit integer.\<close>

definition double_of_uint64 :: "64 word \<Rightarrow> double" where
  "double_of_uint64 x = round_double (of_int (uint x))"

definition UINT64_MAX :: "64 word" where
  "UINT64_MAX = 18446744073709551615"

fun dneg :: "double \<Rightarrow> double" where
  "dneg (Fin x) = Fin (- x)"
| "dneg PInf = NInf"
| "dneg NInf = PInf"
| "dneg NaN = NaN"

fun dadd :: "double \<Rightarrow> double \<Rightarrow> double" where
  "dadd (Fin x) (Fin y) = round_double (x + y)"
| "dadd NaN _ = NaN"
| "dadd _ NaN = NaN"
| "dadd PInf NInf = NaN"
| "dadd NInf PInf = NaN"
| "dadd PInf _ = PInf"
| "dadd NInf _ = NInf"
| "dadd _ PInf = PInf"
| "dadd _ NInf = NInf"

definition dsub :: "double \<Rightarrow> double \<Rightarrow> double" where
  "dsub x y = dadd x (dneg y)"

fun dmul :: "double \<Rightarrow> double \<Rightarrow> double" where
  "dmul (Fin x) (Fin y) = round_double (x * y)"
| "dmul NaN _ = NaN"
| "dmul _ NaN = NaN"
| "dmul (Fin x) PInf = (if x = 0 then NaN else if 0 < x then PInf else NInf)"
| "dmul (Fin x) NInf = (if x = 0 then NaN else if 0 < x then NInf else PInf)"
| "dmul PInf (Fin y) = (if y = 0 then NaN else if 0 < y then PInf else NInf)"
| "dmul NInf (Fin y) = (if y = 0 then NaN else if 0 < y then NInf else PInf)"
| "dmul PInf PInf = PInf"
| "dmul NInf NInf = PInf"
| "dmul PInf NInf = NInf"
| "dmul NInf PInf = NInf"

fun ddiv :: "double \<Rightarrow> double \<Rightarrow> double" where
  "ddiv (Fin x) (Fin y) =
     (if y = 0 then (if x = 0 then NaN else if 0 < x then PInf else NInf)
      else round_double (x / y))"
| "ddiv NaN _ = NaN"
| "ddiv _ NaN = NaN"
| "ddiv (Fin x) _ = Fin 0"
| "ddiv PInf (Fin y) = (if 0 \<le> y then PInf else NInf)"
| "ddiv NInf (Fin y) = (if 0 \<le> y then NInf else PInf)"
| "ddiv PInf _ = NaN"
| "ddiv NInf _ = NaN"

text \<open>The comparisons \<^verbatim>\<open><\<close> and \<^verbatim>\<open>>=\<close>; both are false when an operand is a NaN.\<close>

fun dlt :: "double \<Rightarrow> double \<Rightarrow> bool" where
  "dlt (Fin x) (Fin y) = (x < y)"
| "dlt NaN _ = False"
| "dlt _ NaN = False"
| "dlt NInf NInf = False"
| "dlt NInf _ = True"
| "dlt PInf _ = False"
| "dlt (Fin x) PInf = True"
| "dlt (Fin x) NInf = False"

fun dge :: "double \<Rightarrow> double \<Rightarrow> bool" where
  "dge (Fin x) (Fin y) = (y \<le> x)"
| "dge NaN _ = False"
| "dge _ NaN = False"
| "dge PInf _ = True"
| "dge _ NInf = True"
| "dge NInf _ = False"
| "dge (Fin x) PInf = False"

subsection \<open>Uniform deviates\<close>

text \<open>
  The output buffer \<^verbatim>\<open>double* r\<close> is the memory around the pointer, indexed by the offset
  from it; a store \<^verbatim>\<open>r[i] = v\<close> updates one cell. The batch functions return the updated
  engine state and the updated memory.
\<close>

type_synonym mem = "int \<Rightarrow> double"

function uniform_loop :: "int \<Rightarrow> int \<Rightarrow> random_data \<Rightarrow> mem \<Rightarrow> random_data \<times> mem" where
  "uniform_loop n i rdata rbuf =
     (if i < n then
        (let (x, rdata') = random_lcg_integer rdata;
             rbuf' = rbuf(i := ddiv (double_of_uint64 x) (double_of_uint64 UINT64_MAX))
         in uniform_loop n (i + 1) rdata' rbuf')
      else (rdata, rbuf))"
  by pat_completeness auto
termination
  by (relation "measure (\<lambda>(n, i, rdata, rbuf). nat (n - i))") auto

definition random_lcg_uniform_simd :: "random_data \<Rightarrow> int \<Rightarrow> mem \<Rightarrow> random_data \<times> mem" where
  "random_lcg_uniform_simd rdata n rbuf = uniform_loop n 0 rdata rbuf"

text \<open>
  The scalar form passes the address of an uninitialised local and returns its content
  after a batch call with \<open>n = 1\<close>; the local starts as a placeholder here.
\<close>

definition random_lcg_uniform :: "random_data \<Rightarrow> double \<times> random_data" where
  "random_lcg_uniform rdata =
     (let (rdata', cell) = random_lcg_uniform_simd rdata 1 (\<lambda>_. NaN)
      in (cell 0, rdata'))"

text \<open>\<open>uniform_seq k\<close> is \<open>k\<close> scalar calls in sequence: the values drawn and the state reached.\<close>

fun uniform_seq :: "nat \<Rightarrow> random_data \<Rightarrow> double list \<times> random_data" where
  "uniform_seq 0 rdata = ([], rdata)"
| "uniform_seq (Suc k) rdata =
     (let (u, rdata') = random_lcg_uniform rdata;
          (us, rdata'') = uniform_seq k rdata'
      in (u # us, rdata''))"

subsection \<open>Normal deviates: the Box-Muller loops\<close>

text \<open>
  What the loops take from outside the file: \<^verbatim>\<open>sqrt\<close>, \<^verbatim>\<open>log\<close> and \<^verbatim>\<open>cos\<close> of the C
  mathematical library, the constant \<^verbatim>\<open>CONST_2PI\<close> of \<^verbatim>\<open>consts.h\<close>, and the build switch
  \<^verbatim>\<open>A5_CCOL_USE_GEOBM\<close> that selects the form of the transform. They are parameters.
\<close>

record env =
  c_sqrt :: "double \<Rightarrow> double"
  c_log :: "double \<Rightarrow> double"
  c_cos :: "double \<Rightarrow> double"
  CONST_2PI :: double
  A5_CCOL_USE_GEOBM :: int

text \<open>
  The counters are C \<^verbatim>\<open>int\<close>s (32 bits). An \<^verbatim>\<open>int\<close> expression whose value exceeds
  \<^verbatim>\<open>INT_MAX\<close> has no defined behaviour; the model stops with \<open>SignedOverflow\<close> there.
  \<^verbatim>\<open>%\<close> truncates towards zero.
\<close>

datatype error = SignedOverflow

definition INT_MAX :: int where
  "INT_MAX = 2147483647"

definition c_rem :: "int \<Rightarrow> int \<Rightarrow> int" where
  "c_rem a b = sgn a * (\<bar>a\<bar> mod \<bar>b\<bar>)"

text \<open>
  The rejection loop of the geometric form,
  \<^verbatim>\<open>while (w >= 1.0) { x1 = 2*uniform-1; x2 = 2*uniform-1; w = x1*x1 + x2*x2; }\<close>.
  Its result is optional: \<open>None\<close> is a loop that runs forever. That it ends from every state
  is a property of the recurrence, proved below.
\<close>

partial_function (option) geobm_while ::
  "random_data \<Rightarrow> double \<times> double \<times> double \<Rightarrow> (random_data \<times> double \<times> double \<times> double) option" where
  "geobm_while rdata xs =
     (case xs of (x1, x2, w) \<Rightarrow>
        if dge w (Fin 1) then
          (let (u1, rdata1) = random_lcg_uniform rdata;
               x1' = dsub (dmul (Fin 2) u1) (Fin 1);
               (u2, rdata2) = random_lcg_uniform rdata1;
               x2' = dsub (dmul (Fin 2) u2) (Fin 1);
               w' = dadd (dmul x1' x1') (dmul x2' x2')
           in geobm_while rdata2 (x1', x2', w'))
        else Some (rdata, x1, x2, w))"

text \<open>
  The \<^verbatim>\<open>for (i = 0; i < n; i = i + 2)\<close> loop of the geometric form. The helper variables
  \<^verbatim>\<open>x1\<close>, \<^verbatim>\<open>x2\<close> live across iterations and are passed along.
\<close>

function geobm_for ::
  "env \<Rightarrow> int \<Rightarrow> int \<Rightarrow> int \<Rightarrow> random_data \<Rightarrow> double \<times> double \<Rightarrow> mem
     \<Rightarrow> (error + random_data \<times> mem) option" where
  "geobm_for E n isEven i rdata xs rbuf =
     (if i < n then
        (case geobm_while rdata (fst xs, snd xs, Fin 2) of
           None \<Rightarrow> None
         | Some (rdata', x1, x2, w0) \<Rightarrow>
             (let w = c_sqrt E (ddiv (dmul (Fin (- 2)) (c_log E w0)) w0);
                  rbuf1 = rbuf(i := dmul x1 w);
                  rbuf2 = (if i < n - 2 \<or> 0 < isEven then rbuf1(i + 1 := dmul x2 w) else rbuf1)
              in if INT_MAX < i + 2 then Some (Inl SignedOverflow)
                 else geobm_for E n isEven (i + 2) rdata' (x1, x2) rbuf2))
      else Some (Inr (rdata, rbuf)))"
  by pat_completeness auto
termination
  by (relation "measure (\<lambda>(E, n, isEven, i, rdata, xs, rbuf). nat (n - i))") auto

text \<open>The loop of the common (trigonometric) form.\<close>

function common_for ::
  "env \<Rightarrow> int \<Rightarrow> int \<Rightarrow> int \<Rightarrow> random_data \<Rightarrow> mem \<Rightarrow> error + random_data \<times> mem" where
  "common_for E n isEven i rdata rbuf =
     (if i < n then
        (let (x1, rdata1) = random_lcg_uniform rdata;
             (x2, rdata2) = random_lcg_uniform rdata1;
             w = c_sqrt E (dmul (Fin (- 2)) (c_log E x1));
             s = c_cos E (dmul (CONST_2PI E) x2);
             rbuf1 = rbuf(i := dmul w s);
             rbuf2 = (if i < n - 2 \<or> 0 < isEven then
                        (if dlt x2 (Fin (1 / 2)) then
                           rbuf1(i + 1 := dmul w (c_sqrt E (dsub (Fin 1) (dmul s s))))
                         else
                           rbuf1(i + 1 := dmul (dneg w) (c_sqrt E (dsub (Fin 1) (dmul s s)))))
                      else rbuf1)
         in if INT_MAX < i + 2 then Inl SignedOverflow
            else common_for E n isEven (i + 2) rdata2 rbuf2)
      else Inr (rdata, rbuf))"
  by pat_completeness auto
termination
  by (relation "measure (\<lambda>(E, n, isEven, i, rdata, rbuf). nat (n - i))") auto

text \<open>
  \<^verbatim>\<open>random_lcg_normal_simd\<close>: \<^verbatim>\<open>isEven = (n+1) % 2\<close>, then the loop of the form the build
  selected. The helper variables start uninitialised (a placeholder here).
\<close>

definition random_lcg_normal_simd ::
  "env \<Rightarrow> random_data \<Rightarrow> int \<Rightarrow> mem \<Rightarrow> (error + random_data \<times> mem) option" where
  "random_lcg_normal_simd E rdata n rbuf =
     (if INT_MAX < n + 1 then Some (Inl SignedOverflow)
      else
        (let isEven = c_rem (n + 1) 2
         in if A5_CCOL_USE_GEOBM E = 1 then geobm_for E n isEven 0 rdata (NaN, NaN) rbuf
            else Some (common_for E n isEven 0 rdata rbuf)))"

definition random_lcg_normal :: "env \<Rightarrow> random_data \<Rightarrow> (error + double \<times> random_data) option" where
  "random_lcg_normal E rdata =
     (case random_lcg_normal_simd E rdata 1 (\<lambda>_. NaN) of
        None \<Rightarrow> None
      | Some (Inl e) \<Rightarrow> Some (Inl e)
      | Some (Inr (rdata', cell)) \<Rightarrow> Some (Inr (cell 0, rdata')))"

subsection \<open>The trigonometric transform in the words of the specification\<close>

text \<open>
  From two uniforms \<open>x1\<close>, \<open>x2\<close>: \<open>w = sqrt(-2 ln x1)\<close>, \<open>s = cos(2 pi x2)\<close>, and the pair
  \<open>(w * s, +- w * sqrt(1 - s * s))\<close> with the sign \<open>+\<close> if \<open>x2 < 0.5\<close> and \<open>-\<close> otherwise.
  \<open>trig_pairs\<close> applies it to a list of uniforms, two at a time.
\<close>

definition trig_pair :: "env \<Rightarrow> double \<Rightarrow> double \<Rightarrow> double \<times> double" where
  "trig_pair E x1 x2 =
     (let w = c_sqrt E (dmul (Fin (- 2)) (c_log E x1));
          s = c_cos E (dmul (CONST_2PI E) x2)
      in (dmul w s,
          if dlt x2 (Fin (1 / 2)) then dmul w (c_sqrt E (dsub (Fin 1) (dmul s s)))
          else dmul (dneg w) (c_sqrt E (dsub (Fin 1) (dmul s s)))))"

fun trig_pairs :: "env \<Rightarrow> double list \<Rightarrow> double list" where
  "trig_pairs E (x1 # x2 # xs) = fst (trig_pair E x1 x2) # snd (trig_pair E x1 x2) # trig_pairs E xs"
| "trig_pairs E xs = []"

subsection \<open>A reference environment\<close>

text \<open>
  An environment to run the loops in: a mathematical library that rounds the exact result
  correctly, and \<open>2 pi\<close> rounded to double. The argument is the build switch.
\<close>

fun ref_sqrt :: "double \<Rightarrow> double" where
  "ref_sqrt (Fin x) = (if x < 0 then NaN else round_double (sqrt x))"
| "ref_sqrt PInf = PInf"
| "ref_sqrt NInf = NaN"
| "ref_sqrt NaN = NaN"

fun ref_log :: "double \<Rightarrow> double" where
  "ref_log (Fin x) = (if x < 0 then NaN else if x = 0 then NInf else round_double (ln x))"
| "ref_log PInf = PInf"
| "ref_log NInf = NaN"
| "ref_log NaN = NaN"

fun ref_cos :: "double \<Rightarrow> double" where
  "ref_cos (Fin x) = round_double (cos x)"
| "ref_cos PInf = NaN"
| "ref_cos NInf = NaN"
| "ref_cos NaN = NaN"

definition ref_env :: "int \<Rightarrow> env" where
  "ref_env geobm =
     \<lparr>c_sqrt = ref_sqrt, c_log = ref_log, c_cos = ref_cos,
      CONST_2PI = round_double (2 * pi), A5_CCOL_USE_GEOBM = geobm\<rparr>"

subsection \<open>Teardown\<close>

text \<open>
  Modelled from the spec: the operation \<^verbatim>\<open>destroy()\<close> of the capability set. \<^verbatim>\<open>random.c\<close>
  defines no teardown for any backend, so the engine's life cycle is taken from the
  specification: an engine is live from \<^verbatim>\<open>init\<close> until \<^verbatim>\<open>destroy\<close>; \<^verbatim>\<open>destroy\<close> releases
  the library handle of a library-backed engine, releases nothing for the
  linear-congruential and the platform engines, and is a fatal error on an engine that is
  already released. The second component of the state counts the handles released so far.
\<close>

datatype backend = VectorLibrary | StatisticsLibrary | LinearCongruential | PlatformFallback

datatype fatal = Abort

record engine =
  variant :: backend
  stream :: random_data
  released :: bool

definition owns_handle :: "backend \<Rightarrow> bool" where
  "owns_handle b = (b = VectorLibrary \<or> b = StatisticsLibrary)"

definition destroy :: "engine \<times> nat \<Rightarrow> fatal + engine \<times> nat" where
  "destroy s =
     (case s of (e, handles_released) \<Rightarrow>
        if released e then Inl Abort
        else Inr (e\<lparr>released := True\<rparr>,
                  if owns_handle (variant e) then handles_released + 1 else handles_released))"

subsection \<open>The recurrence on state words\<close>

text \<open>
  The step of \<^verbatim>\<open>random_lcg_integer\<close> on the bare state word, and the coefficients of its
  \<open>2 ^ k\<close>-fold iterate, which is again affine: \<open>lcg_pow2 k = (A, B)\<close> stands for
  \<open>s \<mapsto> A * s + B\<close> modulo \<open>2 ^ 64\<close>, obtained by squaring \<open>k\<close> times.
\<close>

definition lcg_next :: "64 word \<Rightarrow> 64 word" where
  "lcg_next s = 2862933555777941757 * s + 3037000493"

fun lcg_pow2 :: "nat \<Rightarrow> int \<times> int" where
  "lcg_pow2 0 = (2862933555777941757, 3037000493)"
| "lcg_pow2 (Suc k) =
     (case lcg_pow2 k of (A, B) \<Rightarrow> ((A * A) mod 2 ^ 64, (A * B + B) mod 2 ^ 64))"

text \<open>
  One round of the rejection loop as a function of the state word it starts from:
  \<open>geobm_x t\<close> is the coordinate \<^verbatim>\<open>2*uniform - 1\<close> made from the state word \<open>t\<close>, and \<open>geobm_w s\<close>
  the radius \<^verbatim>\<open>x1*x1 + x2*x2\<close> of the round that starts in state \<open>s\<close>.
\<close>

definition geobm_x :: "64 word \<Rightarrow> double" where
  "geobm_x t =
     dsub (dmul (Fin 2) (ddiv (double_of_uint64 t) (double_of_uint64 UINT64_MAX))) (Fin 1)"

definition geobm_w :: "64 word \<Rightarrow> double" where
  "geobm_w s =
     dadd (dmul (geobm_x (lcg_next s)) (geobm_x (lcg_next s)))
          (dmul (geobm_x (lcg_next (lcg_next s))) (geobm_x (lcg_next (lcg_next s))))"

text \<open>Addition of unsigned 64-bit words, on their values.\<close>

definition wrap64 :: "int \<Rightarrow> int \<Rightarrow> int" where
  "wrap64 c x = (if x + c < 2 ^ 64 then x + c else x + c - 2 ^ 64)"

section \<open>Properties\<close>

subsection \<open>Rounding\<close>

lemma rhe_of_int: "round_half_even (of_int k) = k"
  by (simp add: round_half_even_def)

lemma rhe_floor: "\<lfloor>x\<rfloor> \<le> round_half_even x \<and> round_half_even x \<le> \<lfloor>x\<rfloor> + 1"
  by (simp add: round_half_even_def Let_def)

lemma rhe_mono: "x \<le> y \<Longrightarrow> round_half_even x \<le> round_half_even y"
proof -
  assume xy: "x \<le> y"
  have fl: "\<lfloor>x\<rfloor> \<le> \<lfloor>y\<rfloor>" using xy by (rule floor_mono)
  show ?thesis
  proof (cases "\<lfloor>x\<rfloor> = \<lfloor>y\<rfloor>")
    case True
    then have "x - of_int \<lfloor>x\<rfloor> \<le> y - of_int \<lfloor>y\<rfloor>" using xy by simp
    then show ?thesis using True by (auto simp: round_half_even_def Let_def)
  next
    case False
    then have "\<lfloor>x\<rfloor> + 1 \<le> \<lfloor>y\<rfloor>" using fl by simp
    then show ?thesis using rhe_floor [of x] rhe_floor [of y] by linarith
  qed
qed

lemma rhe_le: "x \<le> of_int k \<Longrightarrow> round_half_even x \<le> k"
  using rhe_mono [of x "of_int k"] by (simp add: rhe_of_int)

lemma rhe_ge: "of_int k \<le> x \<Longrightarrow> k \<le> round_half_even x"
  using rhe_mono [of "of_int k" x] by (simp add: rhe_of_int)

lemma rhe_err: "\<bar>of_int (round_half_even x) - x\<bar> \<le> 1 / 2"
proof -
  have "of_int \<lfloor>x\<rfloor> \<le> x" "x < of_int \<lfloor>x\<rfloor> + 1" by linarith+
  then show ?thesis by (auto simp: round_half_even_def Let_def abs_le_iff)
qed

lemma quantum_pos: "0 < quantum x"
  by (simp add: quantum_def)

lemma powr_powi: "(2::real) powr real_of_int k = 2 powi k"
  by (simp add: powr_real_of_int')

lemma floor_log2_iff:
  "0 < (x::real) \<Longrightarrow> \<lfloor>log 2 x\<rfloor> = e \<longleftrightarrow> 2 powi e \<le> x \<and> x < 2 powi (e + 1)"
  using floor_log_eq_powr_iff [of x 2 e] by (simp only: powr_powi)

lemma quantum_eq:
  assumes "2 powi e \<le> \<bar>x\<bar>" "\<bar>x\<bar> < 2 powi (e + 1)"
  shows "quantum x = 2 powi (max e (- 1022) - 52)"
proof -
  have "(0::real) < 2 powi e" by simp
  then have pos: "0 < \<bar>x\<bar>" using assms(1) by linarith
  have "\<lfloor>log 2 \<bar>x\<bar>\<rfloor> = e"
    using assms pos by (simp add: floor_log2_iff)
  then show ?thesis by (simp add: quantum_def)
qed

lemma expo_ex:
  assumes "(x::real) \<noteq> 0"
  shows "\<exists>e. 2 powi e \<le> \<bar>x\<bar> \<and> \<bar>x\<bar> < 2 powi (e + 1)"
proof -
  have pos: "0 < \<bar>x\<bar>" using assms by simp
  show ?thesis using floor_log2_iff [OF pos, of "\<lfloor>log 2 \<bar>x\<bar>\<rfloor>"] by blast
qed



lemma p2_le_iff: "(2::real) powi a \<le> 2 powi b \<longleftrightarrow> a \<le> b"
proof
  assume h: "(2::real) powi a \<le> 2 powi b"
  show "a \<le> b"
  proof (rule ccontr)
    assume "\<not> a \<le> b"
    then have "(2::real) powi b < 2 powi a" by (intro power_int_strict_increasing) auto
    with h show False by simp
  qed
qed (simp add: power_int_increasing)

lemma p2_less_iff: "(2::real) powi a < 2 powi b \<longleftrightarrow> a < b"
  using p2_le_iff [of b a] by (auto simp: not_le [symmetric])

lemma p2_split: "a \<le> b \<Longrightarrow> (2::real) powi b = of_int (2 ^ nat (b - a)) * 2 powi a"
proof -
  assume "a \<le> b"
  define k where "k = nat (b - a)"
  have b: "b = int k + a" using \<open>a \<le> b\<close> by (simp add: k_def)
  have "(2::real) powi (int k + a) = 2 powi int k * 2 powi a" by (rule power_int_add) simp
  then show ?thesis unfolding b by (simp add: power_int_of_nat)
qed

lemma round_to_ge: "0 < q \<Longrightarrow> of_int k * q \<le> x \<Longrightarrow> of_int k * q \<le> round_to q x"
proof -
  assume q: "0 < q" and h: "of_int k * q \<le> x"
  then have "of_int k \<le> x / q" by (simp add: pos_le_divide_eq)
  then have "k \<le> round_half_even (x / q)" by (rule rhe_ge)
  then have "(of_int k :: real) \<le> of_int (round_half_even (x / q))" by simp
  then show ?thesis using q by (simp add: round_to_def mult.commute)
qed

lemma round_to_le: "0 < q \<Longrightarrow> x \<le> of_int k * q \<Longrightarrow> round_to q x \<le> of_int k * q"
proof -
  assume q: "0 < q" and h: "x \<le> of_int k * q"
  then have "x / q \<le> of_int k" by (simp add: pos_divide_le_eq)
  then have "round_half_even (x / q) \<le> k" by (rule rhe_le)
  then have "(of_int (round_half_even (x / q)) :: real) \<le> of_int k" by simp
  then show ?thesis using q by (simp add: round_to_def mult.commute)
qed

lemma round_to_exact: "0 < q \<Longrightarrow> x = of_int k * q \<Longrightarrow> round_to q x = x"
  using round_to_ge [where q = q and k = k and x = x] round_to_le [where q = q and k = k and x = x]
  by simp

lemma round_to_err: "0 < q \<Longrightarrow> \<bar>round_to q x - x\<bar> \<le> q / 2"
proof -
  assume q: "0 < q"
  have "round_to q x - x = q * (of_int (round_half_even (x / q)) - x / q)"
    using q by (simp add: round_to_def algebra_simps)
  then have "\<bar>round_to q x - x\<bar> = q * \<bar>of_int (round_half_even (x / q)) - x / q\<bar>"
    using q by (simp add: abs_mult)
  also have "\<dots> \<le> q * (1 / 2)"
    using q rhe_err [of "x / q"] by (intro mult_left_mono) auto
  finally show ?thesis by simp
qed

lemma round_to_multiple: "\<exists>k. round_to q x = of_int k * q"
  by (auto simp: round_to_def mult.commute)

lemma rd_unfold:
  assumes "2 powi e \<le> \<bar>x\<bar>" "\<bar>x\<bar> < 2 powi (e + 1)"
  shows "round_double x =
     (if 2 ^ 1024 \<le> \<bar>round_to (2 powi (max e (- 1022) - 52)) x\<bar> then (if 0 < x then PInf else NInf)
      else Fin (round_to (2 powi (max e (- 1022) - 52)) x))"
proof -
  have "(0::real) < 2 powi e" by simp
  then have "0 < \<bar>x\<bar>" using assms(1) by linarith
  then have "x \<noteq> 0" by simp
  then show ?thesis by (simp add: round_double_def quantum_eq [OF assms] Let_def)
qed


lemma rd_bounded:
  assumes "\<bar>x\<bar> \<le> 2 powi t" "- 1074 \<le> t" "t \<le> 1023"
  shows "\<exists>y. round_double x = Fin y \<and> \<bar>y\<bar> \<le> 2 powi t \<and> (0 \<le> x \<longrightarrow> 0 \<le> y) \<and> (x \<le> 0 \<longrightarrow> y \<le> 0)"
proof (cases "x = 0")
  case True
  then show ?thesis by (simp add: round_double_def)
next
  case False
  obtain e where e: "2 powi e \<le> \<bar>x\<bar>" "\<bar>x\<bar> < 2 powi (e + 1)"
    using expo_ex [OF False] by blast
  have "(2::real) powi e \<le> 2 powi t" using e(1) assms(1) by linarith
  then have et: "e \<le> t" by (simp add: p2_le_iff)
  define qe where "qe = max e (- 1022) - 52"
  define q :: real where "q = 2 powi qe"
  define K :: int where "K = 2 ^ nat (t - qe)"
  define y where "y = round_to q x"
  have q: "0 < q" by (simp add: q_def)
  have "qe \<le> t" using et assms(2) by (simp add: qe_def)
  then have pt: "2 powi t = of_int K * q" unfolding K_def q_def by (rule p2_split)
  have "x \<le> of_int K * q" using assms(1) pt by linarith
  then have up: "y \<le> 2 powi t" unfolding y_def pt by (rule round_to_le [OF q])
  have "of_int (- K) * q \<le> x" using assms(1) pt by simp
  then have "of_int (- K) * q \<le> y" unfolding y_def by (rule round_to_ge [OF q])
  then have lo: "- (2 powi t) \<le> y" using pt by simp
  have s1: "0 \<le> y" if "0 \<le> x"
    using round_to_ge [OF q, of 0 x] that by (simp add: y_def)
  have s2: "y \<le> 0" if "x \<le> 0"
    using round_to_le [OF q, of x 0] that by (simp add: y_def)
  have "(2::real) powi t \<le> 2 powi 1023" using assms(3) by (simp only: p2_le_iff)
  also have "\<dots> < 2 ^ 1024" by simp
  finally have "\<bar>y\<bar> < 2 ^ 1024" using up lo by linarith
  then have "round_double x = Fin y"
    using rd_unfold [OF e] by (simp add: y_def q_def qe_def)
  then show ?thesis using up lo s1 s2 by auto
qed

lemma rd_lower:
  assumes "2 powi t \<le> \<bar>x\<bar>" "- 1022 \<le> t" "round_double x = Fin y"
  shows "2 powi t \<le> \<bar>y\<bar> \<and> (0 < x \<longrightarrow> 0 < y) \<and> (x < 0 \<longrightarrow> y < 0)"
proof -
  have "(0::real) < 2 powi t" by simp
  then have "0 < \<bar>x\<bar>" using assms(1) by linarith
  then have nz: "x \<noteq> 0" by simp
  obtain e where e: "2 powi e \<le> \<bar>x\<bar>" "\<bar>x\<bar> < 2 powi (e + 1)"
    using expo_ex [OF nz] by blast
  have "(2::real) powi t < 2 powi (e + 1)" using e(2) assms(1) by linarith
  then have te: "t \<le> e" by (simp add: p2_less_iff)
  define q :: real where "q = 2 powi (e - 52)"
  have q: "0 < q" by (simp add: q_def)
  have qe: "max e (- 1022) - 52 = e - 52" using te assms(2) by simp
  have y: "y = round_to q x"
    using rd_unfold [OF e] assms(3) unfolding qe q_def by (simp split: if_splits)
  have pe: "2 powi e = of_int (2 ^ 52) * q"
    unfolding q_def using p2_split [of "e - 52" e] by simp
  have pte: "(2::real) powi t \<le> 2 powi e" using te by (simp only: p2_le_iff)
  have pos: "(0::real) < 2 powi t" by simp
  show ?thesis
  proof (cases "0 < x")
    case True
    then have "of_int (2 ^ 52) * q \<le> x" using e(1) pe by simp
    then have "of_int (2 ^ 52) * q \<le> y" unfolding y by (rule round_to_ge [OF q])
    then have ty: "2 powi t \<le> y" using pe pte by linarith
    then have "0 < y" using pos by linarith
    then show ?thesis using True ty by simp
  next
    case False
    then have neg: "x < 0" using nz by simp
    then have "x \<le> of_int (- (2 ^ 52)) * q" using e(1) pe by simp
    then have "y \<le> of_int (- (2 ^ 52)) * q" unfolding y by (rule round_to_le [OF q])
    then have ty: "y \<le> - (2 powi t)" using pe pte by simp
    then have "y < 0" using pos by linarith
    then show ?thesis using neg ty by simp
  qed
qed

lemma rd_exact:
  assumes "x = of_int m * 2 powi t" "\<bar>m\<bar> < 2 ^ 53" "- 1074 \<le> t" "\<bar>x\<bar> < 2 ^ 1024"
  shows "round_double x = Fin x"
proof (cases "x = 0")
  case True
  then show ?thesis by (simp add: round_double_def)
next
  case False
  obtain e where e: "2 powi e \<le> \<bar>x\<bar>" "\<bar>x\<bar> < 2 powi (e + 1)"
    using expo_ex [OF False] by blast
  have "\<bar>x\<bar> = of_int \<bar>m\<bar> * 2 powi t" by (simp add: assms(1) abs_mult)
  also have "\<dots> < of_int (2 ^ 53) * 2 powi t"
    using assms(2) by (intro mult_strict_right_mono) (simp_all del: of_int_abs, linarith?)
  also have "\<dots> = 2 powi (t + 53)" using p2_split [of t "t + 53"] by simp
  finally have "(2::real) powi e < 2 powi (t + 53)" using e(1) by linarith
  then have et: "e < t + 53" by (simp only: p2_less_iff)
  define qe where "qe = max e (- 1022) - 52"
  define q :: real where "q = 2 powi qe"
  have q: "0 < q" by (simp add: q_def)
  have "qe \<le> t" using et assms(3) by (simp add: qe_def)
  then have "2 powi t = of_int (2 ^ nat (t - qe)) * q" unfolding q_def by (rule p2_split)
  then have "x = of_int (m * 2 ^ nat (t - qe)) * q" by (simp add: assms(1))
  then have "round_to q x = x" by (rule round_to_exact [OF q])
  then show ?thesis
    using rd_unfold [OF e] assms(4) by (simp add: q_def qe_def)
qed


lemma rd_uint:
  assumes "0 \<le> n" "n < 2 ^ 64"
  shows "\<exists>y m t. round_double (of_int n) = Fin (of_int y) \<and> 0 \<le> y \<and> y \<le> 2 ^ 64 \<and>
           \<bar>y - n\<bar> \<le> 1024 \<and> (of_int y :: real) = of_int m * 2 powi t \<and> \<bar>m\<bar> < 2 ^ 53 \<and> 0 \<le> t"
proof (cases "n < 2 ^ 53")
  case True
  have "round_double (of_int n) = Fin (of_int n)"
  proof (rule rd_exact [where m = n and t = 0])
    show "\<bar>n\<bar> < 2 ^ 53" using True assms(1) by simp
    have "\<bar>real_of_int n\<bar> < 2 ^ 53" using True assms(1) by (simp add: of_int_less_numeral_power_cancel_iff)
    also have "(2::real) ^ 53 < 2 ^ 1024" by simp
    finally show "\<bar>real_of_int n\<bar> < 2 ^ 1024" .
  qed simp_all
  moreover have "(of_int n :: real) = of_int n * 2 powi 0" by simp
  ultimately show ?thesis using True assms by (intro exI [of _ n] exI [of _ 0]) simp
next
  case False
  define x :: real where "x = of_int n"
  have xlo: "2 powi 53 \<le> x" using False by (simp add: x_def)
  have xhi: "x < 2 powi 64" using assms(2) by (simp add: x_def)
  have xpos: "0 < x" using xlo by (smt (verit) zero_less_power_int)
  then have ax: "\<bar>x\<bar> = x" by simp
  obtain e where e: "2 powi e \<le> \<bar>x\<bar>" "\<bar>x\<bar> < 2 powi (e + 1)"
    using expo_ex [of x] xpos by auto
  have "(2::real) powi 53 < 2 powi (e + 1)" using e(2) xlo ax by linarith
  then have "53 < e + 1" by (simp only: p2_less_iff)
  then have e53: "53 \<le> e" by simp
  have "(2::real) powi e < 2 powi 64" using e(1) xhi ax by linarith
  then have "e < 64" by (simp only: p2_less_iff)
  then have e63: "e \<le> 63" by simp
  define k where "k = nat (e - 52)"
  have k: "1 \<le> k" "k \<le> 11" "e - 52 = int k" using e53 e63 by (simp_all add: k_def)
  define q :: real where "q = 2 powi (e - 52)"
  have q: "0 < q" by (simp add: q_def)
  have qk: "q = of_int (2 ^ k)" by (simp add: q_def k(3) power_int_of_nat)
  have qe: "max e (- 1022) - 52 = e - 52" using e53 by simp
  define M where "M = round_half_even (x / q)"
  define y :: int where "y = 2 ^ k * M"
  have rt: "round_to q x = of_int y" by (simp add: round_to_def y_def M_def qk)
  have pe: "2 powi e = of_int (2 ^ 52) * q"
    unfolding q_def using p2_split [of "e - 52" e] by simp
  have pe1: "2 powi (e + 1) = of_int (2 ^ 53) * q"
    unfolding q_def using p2_split [of "e - 52" "e + 1"] by simp
  have "of_int (2 ^ 52) * q \<le> x" using e(1) pe ax by simp
  then have "of_int (2 ^ 52) * q \<le> round_to q x" by (rule round_to_ge [OF q])
  then have "(of_int (2 ^ 52) :: real) \<le> of_int M" using q by (simp add: round_to_def M_def)
  then have Mlo: "2 ^ 52 \<le> M" by (simp only: of_int_le_iff)
  have "x \<le> of_int (2 ^ 53) * q" using e(2) pe1 ax by simp
  then have "round_to q x \<le> of_int (2 ^ 53) * q" by (rule round_to_le [OF q])
  then have "(of_int M :: real) \<le> of_int (2 ^ 53)" using q by (simp add: round_to_def M_def)
  then have Mhi: "M \<le> 2 ^ 53" by (simp only: of_int_le_iff)
  have k2: "(2::int) ^ k \<le> 2 ^ 11" using k(2) by (intro power_increasing) auto
  have k2r: "(2::real) ^ k \<le> 2 ^ 11" using k(2) by (intro power_increasing) auto
  have ypos: "0 \<le> y" using Mlo by (simp add: y_def)
  have "y \<le> 2 ^ 11 * 2 ^ 53" unfolding y_def using k2 Mhi Mlo by (intro mult_mono) auto
  then have yhi: "y \<le> 2 ^ 64" by simp
  have "\<bar>round_to q x - x\<bar> \<le> q / 2" by (rule round_to_err [OF q])
  also have "q / 2 \<le> 2 ^ 11 / 2" using k2r unfolding qk by simp
  finally have "\<bar>round_to q x - x\<bar> \<le> 1024" by simp
  then have "\<bar>real_of_int y - real_of_int n\<bar> \<le> 1024"
    using rt by (simp add: x_def)
  then have err: "\<bar>y - n\<bar> \<le> 1024" by linarith
  have "\<bar>real_of_int y\<bar> \<le> 2 ^ 64" using ypos yhi by (simp add: of_int_le_numeral_power_cancel_iff)
  also have "(2::real) ^ 64 < 2 ^ 1024" by simp
  finally have "\<not> 2 ^ 1024 \<le> \<bar>round_to q x\<bar>" by (simp add: rt)
  then have rd: "round_double (of_int n) = Fin (of_int y)"
    using rd_unfold [OF e] unfolding qe q_def [symmetric] x_def [symmetric] by (simp add: rt)
  have rep: "\<exists>m t. (of_int y :: real) = of_int m * 2 powi t \<and> \<bar>m\<bar> < 2 ^ 53 \<and> 0 \<le> t"
  proof (cases "M < 2 ^ 53")
    case True
    have "(of_int y :: real) = of_int M * 2 powi int k" by (simp add: y_def power_int_of_nat)
    then show ?thesis using True Mlo by (intro exI [of _ M] exI [of _ "int k"]) simp
  next
    case False
    then have M: "M = 2 ^ 53" using Mhi by simp
    have "(2::real) powi (int k + 53) = 2 powi int k * 2 powi 53" by (rule power_int_add) simp
    then have "(of_int y :: real) = of_int 1 * 2 powi (int k + 53)"
      using M by (simp add: y_def power_int_of_nat)
    then show ?thesis by (intro exI [of _ 1] exI [of _ "int k + 53"]) simp
  qed
  show ?thesis using rd ypos yhi err rep by blast
qed

lemma double_of_UINT64_MAX: "double_of_uint64 UINT64_MAX = Fin (2 ^ 64)"
proof -
  have "round_double 18446744073709551615 = Fin (2 ^ 64)"
    by (subst rd_unfold [where e = 63]) (simp_all add: round_to_def round_half_even_def)
  then show ?thesis by (simp add: double_of_uint64_def UINT64_MAX_def)
qed

subsection \<open>The uniform loop\<close>

declare uniform_loop.simps [simp del]

lemma lcg_uniform_eq:
  "random_lcg_uniform rdata =
     (ddiv (double_of_uint64 (2862933555777941757 * r rdata + 3037000493)) (double_of_uint64 UINT64_MAX),
      rdata\<lparr>r := 2862933555777941757 * r rdata + 3037000493\<rparr>)"
proof -
  have "uniform_loop 1 1 s m = (s, m)" for s m
    by (simp add: uniform_loop.simps [of 1 1])
  then show ?thesis
    by (simp add: random_lcg_uniform_def random_lcg_uniform_simd_def uniform_loop.simps [of 1 0]
        random_lcg_integer_def Let_def)
qed

lemma uniform_loop_seq:
  "i \<le> n \<Longrightarrow> uniform_loop n i rdata rbuf =
     (snd (uniform_seq (nat (n - i)) rdata),
      \<lambda>j. if i \<le> j \<and> j < n then fst (uniform_seq (nat (n - i)) rdata) ! nat (j - i) else rbuf j)"
proof (induction n i rdata rbuf rule: uniform_loop.induct)
  case (1 n i rdata rbuf)
  show ?case
  proof (cases "i < n")
    case False
    with "1.prems" have "i = n" by simp
    then show ?thesis by (auto simp: uniform_loop.simps [of n n] intro!: ext)
  next
    case True
    define x where "x = fst (random_lcg_integer rdata)"
    define rd' where "rd' = snd (random_lcg_integer rdata)"
    define v where "v = ddiv (double_of_uint64 x) (double_of_uint64 UINT64_MAX)"
    have ri: "random_lcg_integer rdata = (x, rd')" by (simp add: x_def rd'_def)
    have ru: "random_lcg_uniform rdata = (v, rd')"
      by (simp add: lcg_uniform_eq v_def x_def rd'_def random_lcg_integer_def Let_def)
    have suc: "nat (n - i) = Suc (nat (n - (i + 1)))" using True by simp
    have step: "uniform_loop n i rdata rbuf = uniform_loop n (i + 1) rd' (rbuf(i := v))"
      using True by (simp add: uniform_loop.simps [of n i] ri v_def)
    have le: "i + 1 \<le> n" using True by simp
    have ih: "uniform_loop n (i + 1) rd' (rbuf(i := v)) =
       (snd (uniform_seq (nat (n - (i + 1))) rd'),
        \<lambda>j. if i + 1 \<le> j \<and> j < n then fst (uniform_seq (nat (n - (i + 1))) rd') ! nat (j - (i + 1))
             else (rbuf(i := v)) j)"
      unfolding v_def by (rule "1.IH" [OF True refl ri [symmetric] refl le])
    have "nat (j - i) = Suc (nat (j - (i + 1)))" if "i + 1 \<le> j" for j using that by simp
    then show ?thesis
      unfolding step ih suc using True
      by (auto simp: ru split: prod.splits intro!: ext)
  qed
qed


subsection \<open>The linear-congruential step and the seed\<close>

lemma lcg_word_step:
  "(2862933555777941757 * x + 3037000493 :: 64 word) =
     word_of_int ((2862933555777941757 * uint x + 3037000493) mod 2 ^ 64)"
  by (simp add: word_uint_eq_iff uint_word_ariths uint_word_of_int mod_simps)

text \<open>
  Claim C1. A call of the scalar \<^verbatim>\<open>uniform\<close> replaces the state word \<open>s\<close> by
  \<open>(a * s + b) mod 2 ^ 64\<close> with \<open>a = 2862933555777941757\<close> and \<open>b = 3037000493\<close>, exactly
  one step of the recurrence, and returns the new word converted to double and divided, in
  double arithmetic, by \<^verbatim>\<open>UINT64_MAX\<close> \<open>= 2 ^ 64 - 1\<close> converted to double.
\<close>

theorem random_lcg_uniform_step:
  "random_lcg_uniform rdata =
     (ddiv (double_of_uint64 (word_of_int ((2862933555777941757 * uint (r rdata) + 3037000493) mod 2 ^ 64)))
        (double_of_uint64 UINT64_MAX),
      rdata\<lparr>r := word_of_int ((2862933555777941757 * uint (r rdata) + 3037000493) mod 2 ^ 64)\<rparr>)
   \<and> uint UINT64_MAX = 2 ^ 64 - 1"
proof -
  have "uint UINT64_MAX = 2 ^ 64 - 1" by (simp add: UINT64_MAX_def)
  then show ?thesis by (simp only: lcg_uniform_eq lcg_word_step simp_thms)
qed

text \<open>
  Claim C7. Two engines initialised with the same seed, whatever they held before, give the
  same values and reach the same state under the same number of \<^verbatim>\<open>uniform\<close> calls: the
  output is a function of the seed and the calls alone.
\<close>

theorem same_seed_same_sequence:
  "uniform_seq k (random_lcg_init rd1 seed) = uniform_seq k (random_lcg_init rd2 seed)"
proof -
  have "random_lcg_init rd1 seed = random_lcg_init rd2 seed"
    by (cases rd1, cases rd2) (simp add: random_lcg_init_def)
  then show ?thesis by simp
qed

lemma rd_seed1: "round_double 2862933558814942250 = Fin 2862933558814942208"
  by (subst rd_unfold [where e = 61]) (simp_all add: round_to_def round_half_even_def)

lemma rd_seed1_div: "round_double (2862933558814942208 / 18446744073709551616) = Fin (2862933558814942208 / 18446744073709551616)"
  by (rule rd_exact [where m = 5591667107060434 and t = "- 55"]) simp_all

text \<open>
  Claim C6, as stated, gives \<open>2862933555780979250\<close> for \<open>(a * 1 + b) mod 2 ^ 64\<close>; the first
  state word after seeding with 1 is not that number.
\<close>

theorem seed1_first_draw_counterexample:
  "fst (random_lcg_integer (random_lcg_init \<lparr>r = 0\<rparr> 1)) \<noteq> 2862933555780979250"
  by (simp add: random_lcg_integer_def random_lcg_init_def)

text \<open>
  Claim C6, amended. After seeding with 1 the first state transition gives
  \<open>(a * 1 + b) mod 2 ^ 64 = 2862933558814942250\<close>, and the first \<^verbatim>\<open>uniform\<close> call returns
  that word converted to double and divided by \<^verbatim>\<open>UINT64_MAX\<close> converted to double, which
  is the double \<open>2862933558814942208 / 2 ^ 64\<close>.
\<close>

theorem seed1_first_draw:
  "fst (random_lcg_integer (random_lcg_init rdata 1)) = 2862933558814942250
   \<and> (2862933555777941757 * 1 + 3037000493) mod 2 ^ 64 = (2862933558814942250 :: int)
   \<and> random_lcg_uniform (random_lcg_init rdata 1) =
       (ddiv (double_of_uint64 2862933558814942250) (double_of_uint64 UINT64_MAX),
        rdata\<lparr>r := 2862933558814942250\<rparr>)
   \<and> ddiv (double_of_uint64 2862933558814942250) (double_of_uint64 UINT64_MAX) =
       Fin (2862933558814942208 / 2 ^ 64)"
proof -
  have a: "double_of_uint64 2862933558814942250 = Fin 2862933558814942208"
    by (simp add: double_of_uint64_def rd_seed1)
  have b: "ddiv (double_of_uint64 2862933558814942250) (double_of_uint64 UINT64_MAX) =
       Fin (2862933558814942208 / 2 ^ 64)"
    unfolding a double_of_UINT64_MAX using rd_seed1_div by simp
  show ?thesis
  proof (intro conjI)
    show "fst (random_lcg_integer (random_lcg_init rdata 1)) = 2862933558814942250"
      by (simp add: random_lcg_integer_def random_lcg_init_def)
    show "(2862933555777941757 * 1 + 3037000493) mod 2 ^ 64 = (2862933558814942250 :: int)"
      by simp
    show "random_lcg_uniform (random_lcg_init rdata 1) =
       (ddiv (double_of_uint64 2862933558814942250) (double_of_uint64 UINT64_MAX),
        rdata\<lparr>r := 2862933558814942250\<rparr>)"
      by (simp add: random_lcg_init_def lcg_uniform_eq)
  qed (rule b)
qed


subsection \<open>The range of the uniform deviates\<close>

lemma lcg_uniform_twice:
  "\<exists>y::int. 0 \<le> y \<and> y \<le> 2 ^ 64 \<and> \<bar>y - uint s\<bar> \<le> 1024 \<and>
     ddiv (double_of_uint64 s) (double_of_uint64 UINT64_MAX) = Fin (of_int y / 2 ^ 64) \<and>
     dmul (Fin 2) (Fin (of_int y / 2 ^ 64)) = Fin (of_int y / 2 ^ 63) \<and>
     round_double (of_int (uint s)) = Fin (of_int y)"
proof -
  have n: "0 \<le> uint s" "uint s < 2 ^ 64" using uint_lt2p [of s] by simp_all
  obtain y m t where y: "round_double (of_int (uint s)) = Fin (of_int y)" "0 \<le> y" "y \<le> 2 ^ 64"
    "\<bar>y - uint s\<bar> \<le> 1024" "(of_int y :: real) = of_int m * 2 powi t" "\<bar>m\<bar> < 2 ^ 53" "0 \<le> t"
    using rd_uint [OF n] by blast
  have yr: "0 \<le> real_of_int y" "real_of_int y \<le> 2 ^ 64"
    using y(2,3) by (simp_all add: of_int_le_numeral_power_cancel_iff)
  have "(2::real) powi (t - 64) = 2 powi t / 2 powi 64" by (rule power_int_diff) simp
  then have rep: "real_of_int y / 2 ^ 64 = of_int m * 2 powi (t - 64)" by (simp add: y(5))
  have "\<bar>real_of_int y / 2 ^ 64\<bar> \<le> 1" using yr by simp
  also have "(1::real) < 2 ^ 1024" by simp
  finally have "round_double (real_of_int y / 2 ^ 64) = Fin (real_of_int y / 2 ^ 64)"
    using rep y(6,7) by (intro rd_exact [where m = m and t = "t - 64"]) simp_all
  then have dv: "ddiv (Fin (of_int y)) (Fin (2 ^ 64)) = Fin (real_of_int y / 2 ^ 64)" by simp
  have d: "double_of_uint64 s = Fin (of_int y)" using y(1) by (simp add: double_of_uint64_def)
  have q: "ddiv (double_of_uint64 s) (double_of_uint64 UINT64_MAX) = Fin (real_of_int y / 2 ^ 64)"
    unfolding d double_of_UINT64_MAX by (rule dv)
  have "(2::real) powi (t - 63) = 2 powi t / 2 powi 63" by (rule power_int_diff) simp
  then have rep2: "real_of_int y / 2 ^ 63 = of_int m * 2 powi (t - 63)" by (simp add: y(5))
  have "\<bar>real_of_int y / 2 ^ 63\<bar> \<le> 2" using yr by simp
  also have "(2::real) < 2 ^ 1024" by simp
  finally have "round_double (real_of_int y / 2 ^ 63) = Fin (real_of_int y / 2 ^ 63)"
    using rep2 y(6,7) by (intro rd_exact [where m = m and t = "t - 63"]) simp_all
  moreover have "2 * (real_of_int y / 2 ^ 64) = real_of_int y / 2 ^ 63" by simp
  ultimately have tw: "dmul (Fin 2) (Fin (of_int y / 2 ^ 64)) = Fin (of_int y / 2 ^ 63)"
    by (simp only: dmul.simps)
  show ?thesis using y(1,2,3,4) q tw by blast
qed

lemma rd_all_ones: "round_double 18446744073709551615 = Fin 18446744073709551616"
  by (subst rd_unfold [where e = 63]) (simp_all add: round_to_def round_half_even_def)

text \<open>
  Claim C2, as stated, puts every value of \<^verbatim>\<open>uniform\<close> strictly below 1. Seeded with
  \<open>1161856439546075578\<close> the engine steps to the state word \<open>2 ^ 64 - 1\<close>, whose conversion to
  double rounds to \<open>2 ^ 64\<close>, as the conversion of \<^verbatim>\<open>UINT64_MAX\<close> does: the call returns 1.
\<close>

theorem uniform_reaches_one:
  "fst (random_lcg_uniform (random_lcg_init \<lparr>r = 0\<rparr> 1161856439546075578)) = Fin 1"
proof -
  have "round_double 1 = Fin 1" by (rule rd_exact [where m = 1 and t = 0]) simp_all
  then show ?thesis
    by (simp add: lcg_uniform_eq random_lcg_init_def double_of_uint64_def UINT64_MAX_def rd_all_ones)
qed

text \<open>
  Claim C2, amended. In every engine state \<^verbatim>\<open>uniform\<close> returns a finite value \<open>v\<close> with
  \<open>0 \<le> v \<le> 1\<close>: the interval is closed at 1.
\<close>

theorem uniform_unit_interval:
  "\<exists>v. fst (random_lcg_uniform rdata) = Fin v \<and> 0 \<le> v \<and> v \<le> 1"
proof -
  obtain y :: int where y: "0 \<le> y" "y \<le> 2 ^ 64"
    "fst (random_lcg_uniform rdata) = Fin (of_int y / 2 ^ 64)"
    using lcg_uniform_twice [of "2862933555777941757 * r rdata + 3037000493"]
    by (auto simp: lcg_uniform_eq)
  have "real_of_int y \<le> 2 ^ 64" using y(2) by (simp add: of_int_le_numeral_power_cancel_iff)
  then have "real_of_int y / 2 ^ 64 \<le> 1" by simp
  moreover have "0 \<le> real_of_int y / 2 ^ 64" using y(1) by simp
  ultimately show ?thesis using y(3) by blast
qed


subsection \<open>The rejection loop of the geometric form\<close>

lemma no_consecutive_half:
  fixes s1 s2 :: int
  assumes "2 ^ 63 - 1024 \<le> s1" "s1 \<le> 2 ^ 63 + 1024" "2 ^ 63 - 1024 \<le> s2" "s2 \<le> 2 ^ 63 + 1024"
    and "(2862933555777941757 * s1 + 3037000493) mod 2 ^ 64 = s2"
  shows False
proof -
  have "(2862933555777941757 * s1 + 3037000493) mod 2 ^ 64 = s2 mod 2 ^ 64"
    using assms(3,4,5) by simp
  then have "2 ^ 64 dvd (2862933555777941757 * s1 + 3037000493 - s2)"
    by (simp only: mod_eq_dvd_iff)
  then obtain k where k: "2862933555777941757 * s1 + 3037000493 - s2 = 2 ^ 64 * k" ..
  define Z where "Z = - 3597658792 * (s1 - 2 ^ 63) - 975451704 * (s2 - 2 ^ 63) + 975451704 * 3037000493"
  define K where "K = 975451704 * k - 151390045 * s1 + 2286555248"
  have "Z = 2 ^ 64 * K" using k by (simp add: Z_def K_def)
  moreover have "0 < Z" "Z < 2 ^ 64" using assms(1-4) by (simp_all add: Z_def)
  ultimately have "0 < 2 ^ 64 * K" "2 ^ 64 * K < 2 ^ 64 * 1" by simp_all
  then have "0 < K" "K < 1" by (simp_all only: zero_less_mult_iff mult_less_cancel_left_pos) simp_all
  then show False by simp
qed


lemma geobm_coord:
  fixes y :: int
  assumes "0 \<le> y" "y \<le> 2 ^ 64"
  shows "\<exists>x. dsub (Fin (of_int y / 2 ^ 63)) (Fin 1) = Fin x \<and> \<bar>x\<bar> \<le> 1 \<and>
           (y = 2 ^ 63 \<or> 2 powi (- 63) \<le> \<bar>x\<bar>)"
proof -
  define z :: real where "z = of_int y / 2 ^ 63 + - 1"
  have yr: "0 \<le> real_of_int y" "real_of_int y \<le> 2 ^ 64"
    using assms by (simp_all add: of_int_le_numeral_power_cancel_iff)
  have zy: "z = real_of_int (y - 2 ^ 63) / 2 ^ 63" by (simp add: z_def field_simps)
  have "\<bar>z\<bar> \<le> 1" using yr by (simp add: z_def abs_le_iff field_simps)
  then have "\<bar>z\<bar> \<le> 2 powi 0" by simp
  then obtain x where x: "round_double z = Fin x" "\<bar>x\<bar> \<le> 2 powi 0"
    using rd_bounded [of z 0] by auto
  have d: "dsub (Fin (of_int y / 2 ^ 63)) (Fin 1) = Fin x"
    using x(1) by (simp add: dsub_def z_def)
  have lo: "2 powi (- 63) \<le> \<bar>x\<bar>" if "y \<noteq> 2 ^ 63"
  proof -
    have "1 \<le> \<bar>y - 2 ^ 63\<bar>" using that by simp
    then have "1 \<le> \<bar>real_of_int (y - 2 ^ 63)\<bar>" by linarith
    then have "1 / 2 ^ 63 \<le> \<bar>z\<bar>" unfolding zy abs_divide by (simp add: divide_right_mono)
    then have "2 powi (- 63) \<le> \<bar>z\<bar>" by (simp add: power_int_minus_divide)
    then show ?thesis using rd_lower [OF _ _ x(1), of "- 63"] by simp
  qed
  show ?thesis using d x(2) lo by auto
qed

lemma geobm_square:
  assumes "\<bar>x\<bar> \<le> 1"
  shows "\<exists>p. dmul (Fin x) (Fin x) = Fin p \<and> 0 \<le> p \<and> p \<le> 1 \<and>
           (\<bar>x\<bar> < 2 powi (- 63) \<or> 2 powi (- 126) \<le> p)"
proof -
  have "\<bar>x\<bar> * \<bar>x\<bar> \<le> 1 * 1" using assms by (intro mult_mono) simp_all
  then have sq: "0 \<le> x * x" "x * x \<le> 1" by simp_all
  then have "\<bar>x * x\<bar> \<le> 2 powi 0" by simp
  then obtain p where p: "round_double (x * x) = Fin p" "\<bar>p\<bar> \<le> 2 powi 0" "0 \<le> p"
    using rd_bounded [of "x * x" 0] sq(1) by auto
  have lo: "2 powi (- 126) \<le> p" if "2 powi (- 63) \<le> \<bar>x\<bar>"
  proof -
    have "(2::real) powi (- 63) * 2 powi (- 63) \<le> \<bar>x\<bar> * \<bar>x\<bar>"
      using that by (intro mult_mono) simp_all
    moreover have "(2::real) powi (- 63) * 2 powi (- 63) = 2 powi (- 126)"
      by (simp add: power_int_minus_divide)
    ultimately have "2 powi (- 126) \<le> \<bar>x * x\<bar>" by (simp add: abs_mult)
    then show ?thesis using rd_lower [OF _ _ p(1), of "- 126"] p(3) by simp
  qed
  have "\<bar>x\<bar> < 2 powi (- 63) \<or> 2 powi (- 126) \<le> p" using lo by (meson not_le)
  moreover have "p \<le> 1" using p(2) by simp
  moreover have "dmul (Fin x) (Fin x) = Fin p" using p(1) by simp
  ultimately show ?thesis using p(3) by blast
qed

lemma geobm_sum:
  assumes "0 \<le> p1" "p1 \<le> 1" "0 \<le> p2" "p2 \<le> 1"
  shows "\<exists>w. dadd (Fin p1) (Fin p2) = Fin w \<and> 0 \<le> w \<and>
           ((p1 < 2 powi (- 126) \<and> p2 < 2 powi (- 126)) \<or> 0 < w)"
proof -
  have "\<bar>p1 + p2\<bar> \<le> 2 powi 1" using assms by simp
  then obtain w where w: "round_double (p1 + p2) = Fin w" "0 \<le> w"
    using rd_bounded [of "p1 + p2" 1] assms by auto
  have lo: "0 < w" if "2 powi (- 126) \<le> p1 \<or> 2 powi (- 126) \<le> p2"
  proof -
    have "2 powi (- 126) \<le> \<bar>p1 + p2\<bar>" using that assms by auto
    then have "2 powi (- 126) \<le> \<bar>w\<bar>" using rd_lower [OF _ _ w(1), of "- 126"] by simp
    moreover have "(0::real) < 2 powi (- 126)" by simp
    ultimately show ?thesis using w(2) by linarith
  qed
  have "(p1 < 2 powi (- 126) \<and> p2 < 2 powi (- 126)) \<or> 0 < w" using lo by (meson not_le)
  moreover have "dadd (Fin p1) (Fin p2) = Fin w" using w(1) by simp
  ultimately show ?thesis using w(2) by blast
qed


lemma geobm_radius_pos:
  fixes s1 s2 :: "64 word"
  assumes "s2 = 2862933555777941757 * s1 + 3037000493"
  shows "\<exists>v. dadd
      (dmul (dsub (dmul (Fin 2) (ddiv (double_of_uint64 s1) (double_of_uint64 UINT64_MAX))) (Fin 1))
            (dsub (dmul (Fin 2) (ddiv (double_of_uint64 s1) (double_of_uint64 UINT64_MAX))) (Fin 1)))
      (dmul (dsub (dmul (Fin 2) (ddiv (double_of_uint64 s2) (double_of_uint64 UINT64_MAX))) (Fin 1))
            (dsub (dmul (Fin 2) (ddiv (double_of_uint64 s2) (double_of_uint64 UINT64_MAX))) (Fin 1)))
      = Fin v \<and> 0 < v"
proof -
  obtain y1 :: int where y1: "0 \<le> y1" "y1 \<le> 2 ^ 64" "\<bar>y1 - uint s1\<bar> \<le> 1024"
    "ddiv (double_of_uint64 s1) (double_of_uint64 UINT64_MAX) = Fin (of_int y1 / 2 ^ 64)"
    "dmul (Fin 2) (Fin (of_int y1 / 2 ^ 64)) = Fin (of_int y1 / 2 ^ 63)"
    using lcg_uniform_twice [of s1] by blast
  obtain y2 :: int where y2: "0 \<le> y2" "y2 \<le> 2 ^ 64" "\<bar>y2 - uint s2\<bar> \<le> 1024"
    "ddiv (double_of_uint64 s2) (double_of_uint64 UINT64_MAX) = Fin (of_int y2 / 2 ^ 64)"
    "dmul (Fin 2) (Fin (of_int y2 / 2 ^ 64)) = Fin (of_int y2 / 2 ^ 63)"
    using lcg_uniform_twice [of s2] by blast
  obtain x1 where x1: "dsub (Fin (of_int y1 / 2 ^ 63)) (Fin 1) = Fin x1" "\<bar>x1\<bar> \<le> 1"
    "y1 = 2 ^ 63 \<or> 2 powi (- 63) \<le> \<bar>x1\<bar>"
    using geobm_coord [OF y1(1,2)] by blast
  obtain x2 where x2: "dsub (Fin (of_int y2 / 2 ^ 63)) (Fin 1) = Fin x2" "\<bar>x2\<bar> \<le> 1"
    "y2 = 2 ^ 63 \<or> 2 powi (- 63) \<le> \<bar>x2\<bar>"
    using geobm_coord [OF y2(1,2)] by blast
  obtain p1 where p1: "dmul (Fin x1) (Fin x1) = Fin p1" "0 \<le> p1" "p1 \<le> 1"
    "\<bar>x1\<bar> < 2 powi (- 63) \<or> 2 powi (- 126) \<le> p1"
    using geobm_square [OF x1(2)] by blast
  obtain p2 where p2: "dmul (Fin x2) (Fin x2) = Fin p2" "0 \<le> p2" "p2 \<le> 1"
    "\<bar>x2\<bar> < 2 powi (- 63) \<or> 2 powi (- 126) \<le> p2"
    using geobm_square [OF x2(2)] by blast
  obtain w where w: "dadd (Fin p1) (Fin p2) = Fin w" "0 \<le> w"
    "(p1 < 2 powi (- 126) \<and> p2 < 2 powi (- 126)) \<or> 0 < w"
    using geobm_sum [OF p1(2,3) p2(2,3)] by blast
  have "\<not> (y1 = 2 ^ 63 \<and> y2 = 2 ^ 63)"
  proof
    assume h: "y1 = 2 ^ 63 \<and> y2 = 2 ^ 63"
    have u2: "uint s2 = (2862933555777941757 * uint s1 + 3037000493) mod 2 ^ 64"
      unfolding assms by (simp add: uint_word_ariths mod_simps)
    show False
      by (rule no_consecutive_half [of "uint s1" "uint s2"]) (use h y1(3) y2(3) u2 in simp_all)
  qed
  then have "2 powi (- 63) \<le> \<bar>x1\<bar> \<or> 2 powi (- 63) \<le> \<bar>x2\<bar>" using x1(3) x2(3) by blast
  then have "2 powi (- 126) \<le> p1 \<or> 2 powi (- 126) \<le> p2" using p1(4) p2(4) by linarith
  then have "0 < w" using w(3) by linarith
  then show ?thesis unfolding y1(4) y1(5) y2(4) y2(5) x1(1) x2(1) p1(1) p2(1) w(1) by simp
qed

lemma geobm_while_inv:
  assumes "geobm_while rdata xs = Some res"
  shows "\<not> dge (snd (snd (snd res))) (Fin 1) \<and>
     (snd (snd (snd res)) = snd (snd xs) \<or> (\<exists>v. snd (snd (snd res)) = Fin v \<and> 0 < v))"
proof (rule geobm_while.raw_induct [where P = "\<lambda>rdata xs res.
     \<not> dge (snd (snd (snd res))) (Fin 1) \<and>
     (snd (snd (snd res)) = snd (snd xs) \<or> (\<exists>v. snd (snd (snd res)) = Fin v \<and> 0 < v))", OF _ assms])
  fix f :: "random_data \<Rightarrow> double \<times> double \<times> double \<Rightarrow> (random_data \<times> double \<times> double \<times> double) option"
  fix rdata xs res
  assume IH: "\<And>rdata xs res. f rdata xs = Some res \<Longrightarrow>
     \<not> dge (snd (snd (snd res))) (Fin 1) \<and>
     (snd (snd (snd res)) = snd (snd xs) \<or> (\<exists>v. snd (snd (snd res)) = Fin v \<and> 0 < v))"
  assume body: "(case xs of (x1, x2, w) \<Rightarrow>
        if dge w (Fin 1) then
          (let (u1, rdata1) = random_lcg_uniform rdata;
               x1' = dsub (dmul (Fin 2) u1) (Fin 1);
               (u2, rdata2) = random_lcg_uniform rdata1;
               x2' = dsub (dmul (Fin 2) u2) (Fin 1);
               w' = dadd (dmul x1' x1') (dmul x2' x2')
           in f rdata2 (x1', x2', w'))
        else Some (rdata, x1, x2, w)) = Some res"
  obtain a b w0 where xs: "xs = (a, b, w0)" by (cases xs)
  show "\<not> dge (snd (snd (snd res))) (Fin 1) \<and>
     (snd (snd (snd res)) = snd (snd xs) \<or> (\<exists>v. snd (snd (snd res)) = Fin v \<and> 0 < v))"
  proof (cases "dge w0 (Fin 1)")
    case False
    then show ?thesis using body by (auto simp: xs)
  next
    case True
    define s1 where "s1 = 2862933555777941757 * r rdata + 3037000493"
    define s2 where "s2 = 2862933555777941757 * s1 + 3037000493"
    define x1 where "x1 = dsub (dmul (Fin 2) (ddiv (double_of_uint64 s1) (double_of_uint64 UINT64_MAX))) (Fin 1)"
    define x2 where "x2 = dsub (dmul (Fin 2) (ddiv (double_of_uint64 s2) (double_of_uint64 UINT64_MAX))) (Fin 1)"
    obtain v where v: "dadd (dmul x1 x1) (dmul x2 x2) = Fin v" "0 < v"
      using geobm_radius_pos [OF s2_def] unfolding x1_def x2_def by blast
    have "f (rdata\<lparr>r := s2\<rparr>) (x1, x2, Fin v) = Some res"
      using body True
      by (simp add: xs lcg_uniform_eq s1_def [symmetric] s2_def [symmetric] x1_def [symmetric]
          x2_def [symmetric] v(1) Let_def)
    from IH [OF this] show ?thesis using v(2) by auto
  qed
qed

text \<open>
  Claim C5. When the rejection loop of the geometric form, entered with \<open>w = 2.0\<close> as the
  batch loop enters it, ends, the radius it accepted is a finite \<open>w\<close> with \<open>0 < w < 1\<close>:
  neither \<open>w \<ge> 1\<close> nor the degenerate \<open>w = 0\<close> reaches \<^verbatim>\<open>sqrt(-2*log(w)/w)\<close>.
  The radius is zero only if both uniforms are exactly one half, that is if two consecutive
  state words both lie within 1024 of \<open>2 ^ 63\<close>, which the recurrence excludes.
\<close>

theorem geobm_while_accepts:
  "geobm_while rdata (x1, x2, Fin 2) = Some (rdata', x1', x2', w) \<Longrightarrow> \<exists>v. w = Fin v \<and> 0 < v \<and> v < 1"
  using geobm_while_inv [of rdata "(x1, x2, Fin 2)" "(rdata', x1', x2', w)"] by auto


text \<open>
  A run of the loop that ends after one round: the state word steps to \<open>2 ^ 63\<close> (the
  uniform one half, \<open>x1 = 0\<close>) and then to \<open>2 ^ 63 + 3037000493\<close>.
\<close>

lemma geobm_while_sample:
  "geobm_while \<lparr>r = 8072181499643938319\<rparr> (NaN, NaN, Fin 2) =
     Some (\<lparr>r = 9223372039891776301\<rparr>, Fin 0, Fin (1482910 / 2 ^ 52), Fin (2199022068100 / 2 ^ 104))"
proof -
  have c1: "round_double 9223372036854775808 = Fin 9223372036854775808"
    by (rule rd_exact [where m = 1 and t = 63]) simp_all
  have c2: "round_double (1 / 2) = Fin (1 / 2)"
    by (rule rd_exact [where m = 1 and t = "- 1"]) simp_all
  have c3: "round_double 1 = Fin 1"
    by (rule rd_exact [where m = 1 and t = 0]) simp_all
  have c4: "round_double 9223372039891776301 = Fin 9223372039891775488"
    by (subst rd_unfold [where e = 63]) (simp_all add: round_to_def round_half_even_def)
  have c5: "round_double (9223372039891775488 / 2 ^ 64) = Fin (9223372039891775488 / 2 ^ 64)"
    by (rule rd_exact [where m = 4503599628853406 and t = "- 53"]) simp_all
  have c6: "round_double (9223372039891775488 / 2 ^ 63) = Fin (9223372039891775488 / 2 ^ 63)"
    by (rule rd_exact [where m = 4503599628853406 and t = "- 52"]) simp_all
  have c7: "round_double (1482910 / 2 ^ 52) = Fin (1482910 / 2 ^ 52)"
    by (rule rd_exact [where m = 1482910 and t = "- 52"]) simp_all
  have c8: "round_double (2199022068100 / 2 ^ 104) = Fin (2199022068100 / 2 ^ 104)"
    by (rule rd_exact [where m = 2199022068100 and t = "- 104"]) simp_all
  have c0: "round_double 0 = Fin 0" by (simp add: round_double_def)
  have d1: "double_of_uint64 9223372036854775808 = Fin 9223372036854775808"
    using c1 by (simp add: double_of_uint64_def)
  have d2: "double_of_uint64 9223372039891776301 = Fin 9223372039891775488"
    using c4 by (simp add: double_of_uint64_def)
  have x1: "dsub (dmul (Fin 2) (ddiv (double_of_uint64 9223372036854775808) (double_of_uint64 UINT64_MAX))) (Fin 1) = Fin 0"
    unfolding d1 double_of_UINT64_MAX using c0 c2 c3 by (simp add: dsub_def)
  have x2: "dsub (dmul (Fin 2) (ddiv (double_of_uint64 9223372039891776301) (double_of_uint64 UINT64_MAX))) (Fin 1) = Fin (1482910 / 2 ^ 52)"
    unfolding d2 double_of_UINT64_MAX using c5 c6 c7 by (simp add: dsub_def)
  have w: "dadd (dmul (Fin 0) (Fin 0)) (dmul (Fin (1482910 / 2 ^ 52)) (Fin (1482910 / 2 ^ 52))) = Fin (2199022068100 / 2 ^ 104)"
    using c0 c8 by simp
  have stop: "geobm_while rd (a, b, Fin (2199022068100 / 2 ^ 104)) = Some (rd, a, b, Fin (2199022068100 / 2 ^ 104))" for rd a b
    by (subst geobm_while.simps) simp
  have w1: "(2862933555777941757 * 8072181499643938319 + 3037000493 :: 64 word) = 9223372036854775808"
    by simp
  have w2: "(2862933555777941757 * 9223372036854775808 + 3037000493 :: 64 word) = 9223372039891776301"
    by simp
  have u1: "random_lcg_uniform \<lparr>r = 8072181499643938319\<rparr> =
      (ddiv (double_of_uint64 9223372036854775808) (double_of_uint64 UINT64_MAX),
       \<lparr>r = 9223372036854775808\<rparr>)"
    unfolding lcg_uniform_eq by (simp only: random_data.select_convs random_data.update_convs w1)
  have u2: "random_lcg_uniform \<lparr>r = 9223372036854775808\<rparr> =
      (ddiv (double_of_uint64 9223372039891776301) (double_of_uint64 UINT64_MAX),
       \<lparr>r = 9223372039891776301\<rparr>)"
    unfolding lcg_uniform_eq by (simp only: random_data.select_convs random_data.update_convs w2)
  have g: "dge (Fin 2) (Fin 1)" by simp
  have "geobm_while \<lparr>r = 8072181499643938319\<rparr> (NaN, NaN, Fin 2) =
      geobm_while \<lparr>r = 9223372039891776301\<rparr>
        (Fin 0, Fin (1482910 / 2 ^ 52), Fin (2199022068100 / 2 ^ 104))"
    by (subst geobm_while.simps) (simp only: prod.case g if_True u1 u2 Let_def x1 x2 w)
  then show ?thesis by (simp only: stop)
qed

theorem geobm_while_accepts_witness:
  "geobm_while \<lparr>r = 8072181499643938319\<rparr> (NaN, NaN, Fin 2) =
     Some (\<lparr>r = 9223372039891776301\<rparr>, Fin 0, Fin (1482910 / 2 ^ 52), Fin (2199022068100 / 2 ^ 104))
   \<and> (\<exists>v. Fin (2199022068100 / 2 ^ 104) = Fin v \<and> 0 < v \<and> v < 1)"
  using geobm_while_accepts [OF geobm_while_sample] geobm_while_sample by blast


subsection \<open>The rejection loop ends\<close>

text \<open>
  The rejection loop of the geometric form ends from every state. After \<open>2 ^ 62\<close> steps the
  recurrence has added \<open>3 * 2 ^ 62\<close> to the state word, whatever the word was; so the four
  rounds that lie \<open>2 ^ 61\<close> rounds apart see the same pair of state words moved by \<open>0\<close>, \<open>3\<close>,
  \<open>2\<close> and \<open>1\<close> quarters of the word range. For one of the four moves the first word lies in
  the middle half of the range and the second in its middle three quarters: there
  \<open>\<bar>x1\<bar> \<le> 1/2\<close>, \<open>\<bar>x2\<bar> \<le> 3/4\<close> and the radius is at most \<open>13/16\<close>, so the loop has ended.
\<close>

lemma word_of_int_mod64: "(word_of_int (x mod 2 ^ 64) :: 64 word) = word_of_int x"
  by (simp add: word_of_int_eq_iff take_bit_eq_mod)

lemma lcg_pow2_funpow:
  "(lcg_next ^^ (2 ^ k)) s = word_of_int (fst (lcg_pow2 k)) * s + word_of_int (snd (lcg_pow2 k))"
proof (induction k arbitrary: s)
  case 0
  show ?case by (simp add: lcg_next_def)
next
  case (Suc k)
  obtain A B where AB: "lcg_pow2 k = (A, B)" by (cases "lcg_pow2 k")
  have "(lcg_next ^^ (2 ^ Suc k)) s = (lcg_next ^^ (2 ^ k)) ((lcg_next ^^ (2 ^ k)) s)"
    by (simp add: mult_2 funpow_add)
  also have "\<dots> = word_of_int A * (word_of_int A * s + word_of_int B) + word_of_int B"
    by (simp add: Suc.IH AB)
  also have "\<dots> = word_of_int (A * A) * s + word_of_int (A * B + B)"
    by (simp add: algebra_simps)
  finally show ?case
    by (simp only: lcg_pow2.simps AB prod.case fst_conv snd_conv word_of_int_mod64)
qed

lemma lcg_pow2_62: "lcg_pow2 62 = (1, 13835058055282163712)"
  by code_simp


lemma lcg_2p62: "(lcg_next ^^ (2 ^ 62)) s = s + 13835058055282163712"
  using lcg_pow2_funpow [of 62 s] by (simp add: lcg_pow2_62)

lemma lcg_quarter: "(lcg_next ^^ (m * 2 ^ 62)) s = s + of_nat m * 13835058055282163712"
proof (induction m)
  case 0
  show ?case by simp
next
  case (Suc m)
  have "(lcg_next ^^ (Suc m * 2 ^ 62)) s = (lcg_next ^^ (2 ^ 62 + m * 2 ^ 62)) s"
    by (simp only: mult_Suc)
  also have "\<dots> = (lcg_next ^^ (2 ^ 62)) ((lcg_next ^^ (m * 2 ^ 62)) s)"
    by (simp only: funpow_add o_apply)
  also have "\<dots> = (s + of_nat m * 13835058055282163712) + 13835058055282163712"
    by (simp only: Suc.IH lcg_2p62)
  also have "\<dots> = s + of_nat (Suc m) * 13835058055282163712"
    by (simp add: algebra_simps)
  finally show ?case .
qed

lemma lcg_next_shift:
  "lcg_next (s + of_nat m * 13835058055282163712) = lcg_next s + of_nat m * 13835058055282163712"
proof -
  have "(2862933555777941757 * 13835058055282163712 :: 64 word) = 13835058055282163712" by simp
  then have "2862933555777941757 * (of_nat m * 13835058055282163712 :: 64 word)
      = of_nat m * 13835058055282163712"
    by (simp only: mult.left_commute [of _ "of_nat m"])
  then show ?thesis by (simp only: lcg_next_def distrib_left) (simp only: add_ac)
qed

text \<open>One round of the rejection loop.\<close>

lemma geobm_while_round:
  "dge w (Fin 1) \<Longrightarrow>
     geobm_while rdata (a, b, w) =
     geobm_while (rdata\<lparr>r := lcg_next (lcg_next (r rdata))\<rparr>)
       (geobm_x (lcg_next (r rdata)), geobm_x (lcg_next (lcg_next (r rdata))),
        geobm_w (r rdata))"
  by (subst geobm_while.simps)
    (simp add: lcg_uniform_eq geobm_x_def geobm_w_def lcg_next_def Let_def)

lemma geobm_while_exit:
  "\<not> dge w (Fin 1) \<Longrightarrow> geobm_while rdata (a, b, w) = Some (rdata, a, b, w)"
  by (subst geobm_while.simps) simp

lemma geobm_while_returns_if:
  "dge w (Fin 1) \<Longrightarrow> \<not> dge (geobm_w ((lcg_next ^^ (2 * j)) (r rdata))) (Fin 1) \<Longrightarrow>
     geobm_while rdata (a, b, w) \<noteq> None"
proof (induction j arbitrary: rdata a b w)
  case 0
  then show ?case by (simp add: geobm_while_round geobm_while_exit)
next
  case (Suc j)
  show ?case
  proof (cases "dge (geobm_w (r rdata)) (Fin 1)")
    case False
    then show ?thesis using Suc.prems(1) by (simp add: geobm_while_round geobm_while_exit)
  next
    case True
    have "(lcg_next ^^ (2 * Suc j)) (r rdata) = (lcg_next ^^ (2 * j)) (lcg_next (lcg_next (r rdata)))"
      by (simp add: funpow_swap1)
    then have "\<not> dge (geobm_w ((lcg_next ^^ (2 * j))
        (r (rdata\<lparr>r := lcg_next (lcg_next (r rdata))\<rparr>)))) (Fin 1)"
      using Suc.prems(2) by simp
    from Suc.IH [OF True this] show ?thesis using Suc.prems(1) by (simp add: geobm_while_round)
  qed
qed


lemma rd_abs_le_rep:
  assumes "\<bar>x\<bar> \<le> c" "c = of_int K * 2 powi t" "0 < K" "K < 2 ^ 53" "- 1074 \<le> t" "c < 2 ^ 1024"
  shows "\<exists>y. round_double x = Fin y \<and> \<bar>y\<bar> \<le> c \<and> (0 \<le> x \<longrightarrow> 0 \<le> y) \<and> (x \<le> 0 \<longrightarrow> y \<le> 0)"
proof (cases "x = 0")
  case True
  then show ?thesis using assms(1) by (simp add: round_double_def)
next
  case False
  obtain e where e: "2 powi e \<le> \<bar>x\<bar>" "\<bar>x\<bar> < 2 powi (e + 1)"
    using expo_ex [OF False] by blast
  have "c < of_int (2 ^ 53) * 2 powi t"
    unfolding assms(2) using assms(4) by (intro mult_strict_right_mono) simp_all
  also have "\<dots> = 2 powi (t + 53)" using p2_split [of t "t + 53"] by simp
  finally have "(2::real) powi e < 2 powi (t + 53)" using e(1) assms(1) by linarith
  then have et: "e < t + 53" by (simp only: p2_less_iff)
  define qe where "qe = max e (- 1022) - 52"
  define q :: real where "q = 2 powi qe"
  define y where "y = round_to q x"
  have q: "0 < q" by (simp add: q_def)
  have "qe \<le> t" using et assms(5) by (simp add: qe_def)
  then have "2 powi t = of_int (2 ^ nat (t - qe)) * q" unfolding q_def by (rule p2_split)
  then have c: "c = of_int (K * 2 ^ nat (t - qe)) * q" by (simp add: assms(2))
  have "x \<le> of_int (K * 2 ^ nat (t - qe)) * q" using assms(1) c by linarith
  then have "y \<le> of_int (K * 2 ^ nat (t - qe)) * q" unfolding y_def by (rule round_to_le [OF q])
  then have up: "y \<le> c" using c by simp
  have "of_int (- (K * 2 ^ nat (t - qe))) * q \<le> x" using assms(1) c by simp
  then have "of_int (- (K * 2 ^ nat (t - qe))) * q \<le> y" unfolding y_def by (rule round_to_ge [OF q])
  then have lo: "- c \<le> y" using c by simp
  have s1: "0 \<le> y" if "0 \<le> x"
    using round_to_ge [OF q, of 0 x] that by (simp add: y_def)
  have s2: "y \<le> 0" if "x \<le> 0"
    using round_to_le [OF q, of x 0] that by (simp add: y_def)
  have "\<bar>y\<bar> < 2 ^ 1024" using up lo assms(6) by linarith
  then have "round_double x = Fin y"
    using rd_unfold [OF e] by (simp add: y_def q_def qe_def)
  then show ?thesis using up lo s1 s2 by auto
qed

lemma geobm_coord_bound:
  assumes "2 ^ 63 - D \<le> uint t" "uint t \<le> 2 ^ 63 + D"
    and "(D = 2 ^ 62 \<and> K = 1 \<and> e = - 1) \<or> (D = 3 * 2 ^ 61 \<and> K = 3 \<and> e = - 2)"
  shows "\<exists>x. geobm_x t = Fin x \<and> \<bar>x\<bar> \<le> of_int K * 2 powi e"
proof -
  obtain y :: int where y: "0 \<le> y" "y \<le> 2 ^ 64"
    "ddiv (double_of_uint64 t) (double_of_uint64 UINT64_MAX) = Fin (of_int y / 2 ^ 64)"
    "dmul (Fin 2) (Fin (of_int y / 2 ^ 64)) = Fin (of_int y / 2 ^ 63)"
    "round_double (of_int (uint t)) = Fin (of_int y)"
    using lcg_uniform_twice [of t] by blast
  have D: "D = 2 ^ 62 \<or> D = 3 * 2 ^ 61" using assms(3) by blast
  have Dr: "real_of_int D = of_int K * 2 powi e * 2 ^ 63" using assms(3) by auto
  have K: "0 < K" "K < 2 ^ 53" "- 1074 \<le> e" using assms(3) by auto
  have lo: "2 ^ 63 - D \<le> y"
  proof -
    obtain j :: int where j: "2 ^ 63 - D = 2 ^ nat j" "0 \<le> j" "j \<le> 62"
      using D by (auto intro: that [of 62] that [of 61])
    have "(2::real) powi j = of_int (2 ^ nat j)" using j(2) by (simp add: power_int_def)
    have "real_of_int (2 ^ nat j) \<le> real_of_int (uint t)"
      using assms(1) unfolding j(1) by (simp only: of_int_le_iff)
    then have "2 powi j \<le> \<bar>real_of_int (uint t)\<bar>"
      using \<open>(2::real) powi j = of_int (2 ^ nat j)\<close> by linarith
    then have "2 powi j \<le> \<bar>real_of_int y\<bar>" using rd_lower [OF _ _ y(5), of j] j(2) by simp
    then have "real_of_int (2 ^ nat j) \<le> real_of_int y"
      using y(1) \<open>(2::real) powi j = of_int (2 ^ nat j)\<close> by simp
    then show ?thesis unfolding j(1) by (simp only: of_int_le_iff)
  qed
  have hi: "y \<le> 2 ^ 63 + D"
  proof -
    obtain K' :: int and j :: int where j: "2 ^ 63 + D = K' * 2 ^ nat j" "0 \<le> j" "0 < K'" "K' < 8"
      using D by (auto intro: that [of 3 62] that [of 7 61])
    have pj: "(2::real) powi j = of_int (2 ^ nat j)" using j(2) by (simp add: power_int_def)
    have c: "real_of_int (2 ^ 63 + D) = of_int K' * 2 powi j" unfolding j(1) pj by simp
    have "real_of_int (2 ^ 63 + D) \<le> 2 ^ 65" using D by auto
    also have "(2::real) ^ 65 < 2 ^ 1024" by simp
    finally have big: "real_of_int (2 ^ 63 + D) < 2 ^ 1024" .
    have "real_of_int (uint t) \<le> real_of_int (2 ^ 63 + D)"
      using assms(2) by (simp only: of_int_le_iff)
    moreover have "0 \<le> real_of_int (uint t)"
      using uint_ge_0 [of t] by (simp only: of_int_0_le_iff)
    ultimately have ab: "\<bar>real_of_int (uint t)\<bar> \<le> real_of_int (2 ^ 63 + D)" by linarith
    have K53: "K' < 2 ^ 53" using j(4) by simp
    have j74: "- 1074 \<le> j" using j(2) by simp
    obtain y' where y': "round_double (real_of_int (uint t)) = Fin y'"
      "\<bar>y'\<bar> \<le> real_of_int (2 ^ 63 + D)"
      using rd_abs_le_rep [OF ab c j(3) K53 j74 big] by blast
    have "y' = real_of_int y" using y'(1) unfolding y(5) by simp
    then have "real_of_int y \<le> real_of_int (2 ^ 63 + D)" using y'(2) by linarith
    then show ?thesis by (simp only: of_int_le_iff)
  qed
  define z :: real where "z = of_int y / 2 ^ 63 + - 1"
  have zy: "z = real_of_int (y - 2 ^ 63) / 2 ^ 63" by (simp add: z_def field_simps)
  have "\<bar>real_of_int (y - 2 ^ 63)\<bar> \<le> real_of_int D" using lo hi by linarith
  then have "\<bar>z\<bar> \<le> real_of_int D / 2 ^ 63" unfolding zy abs_divide by (simp add: divide_right_mono)
  then have zb: "\<bar>z\<bar> \<le> of_int K * 2 powi e" by (simp add: Dr)
  have "of_int K * (2::real) powi e < 2 ^ 1024" using assms(3) by auto
  from rd_abs_le_rep [OF zb refl K this] obtain x where
    x: "round_double z = Fin x" "\<bar>x\<bar> \<le> of_int K * 2 powi e" by blast
  have "geobm_x t = Fin x"
    unfolding geobm_x_def y(3) y(4) using x(1) by (simp add: dsub_def z_def)
  then show ?thesis using x(2) by blast
qed

lemma geobm_radius_small:
  assumes "2 ^ 62 \<le> uint (lcg_next s)" "uint (lcg_next s) \<le> 3 * 2 ^ 62"
    and "2 ^ 61 \<le> uint (lcg_next (lcg_next s))" "uint (lcg_next (lcg_next s)) \<le> 7 * 2 ^ 61"
  shows "\<not> dge (geobm_w s) (Fin 1)"
proof -
  have a1: "2 ^ 63 - 2 ^ 62 \<le> uint (lcg_next s)" "uint (lcg_next s) \<le> 2 ^ 63 + 2 ^ 62"
    using assms(1,2) by simp_all
  have a2: "2 ^ 63 - 3 * 2 ^ 61 \<le> uint (lcg_next (lcg_next s))"
    "uint (lcg_next (lcg_next s)) \<le> 2 ^ 63 + 3 * 2 ^ 61"
    using assms(3,4) by simp_all
  obtain x1 where x1: "geobm_x (lcg_next s) = Fin x1" "\<bar>x1\<bar> \<le> of_int 1 * 2 powi (- 1)"
    using geobm_coord_bound [OF a1, of 1 "- 1"] by blast
  obtain x2 where x2: "geobm_x (lcg_next (lcg_next s)) = Fin x2"
    "\<bar>x2\<bar> \<le> of_int 3 * 2 powi (- 2)"
    using geobm_coord_bound [OF a2, of 3 "- 2"] by blast
  have b1: "\<bar>x1\<bar> \<le> 1 / 2" using x1(2) by (simp add: power_int_minus)
  have b2: "\<bar>x2\<bar> \<le> 3 / 4" using x2(2) by (simp add: power_int_minus)
  have "\<bar>x1\<bar> * \<bar>x1\<bar> \<le> (1 / 2) * (1 / 2)" using b1 by (intro mult_mono) simp_all
  then have c1: "\<bar>x1 * x1\<bar> \<le> 1 / 4" by (simp add: abs_mult)
  have "\<bar>x2\<bar> * \<bar>x2\<bar> \<le> (3 / 4) * (3 / 4)" using b2 by (intro mult_mono) simp_all
  then have c2: "\<bar>x2 * x2\<bar> \<le> 9 / 16" by (simp add: abs_mult)
  have e1: "(1 / 4 :: real) = of_int 1 * 2 powi (- 2)" by (simp add: power_int_minus)
  have e2: "(9 / 16 :: real) = of_int 9 * 2 powi (- 4)" by (simp add: power_int_minus)
  have e3: "(13 / 16 :: real) = of_int 13 * 2 powi (- 4)" by (simp add: power_int_minus)
  obtain p1 where p1: "round_double (x1 * x1) = Fin p1" "\<bar>p1\<bar> \<le> 1 / 4"
    using rd_abs_le_rep [OF c1 e1] by auto
  obtain p2 where p2: "round_double (x2 * x2) = Fin p2" "\<bar>p2\<bar> \<le> 9 / 16"
    using rd_abs_le_rep [OF c2 e2] by auto
  have c3: "\<bar>p1 + p2\<bar> \<le> 13 / 16" using p1(2) p2(2) by linarith
  obtain w where w: "round_double (p1 + p2) = Fin w" "\<bar>w\<bar> \<le> 13 / 16"
    using rd_abs_le_rep [OF c3 e3] by auto
  have "geobm_w s = Fin w"
    unfolding geobm_w_def x1(1) x2(1) by (simp add: p1(1) p2(1) w(1))
  then show ?thesis using w(2) by simp
qed


lemma quarter_select_int:
  fixes T T' :: int
  assumes "0 \<le> T" "T < 2 ^ 64" "0 \<le> T'" "T' < 2 ^ 64"
  shows "\<exists>c \<in> {0, 13835058055282163712, 9223372036854775808, 4611686018427387904}.
     2 ^ 62 \<le> wrap64 c T \<and> wrap64 c T \<le> 3 * 2 ^ 62 \<and>
     2 ^ 61 \<le> wrap64 c T' \<and> wrap64 c T' \<le> 7 * 2 ^ 61"
  using assms unfolding wrap64_def by (simp split: if_splits) linarith


lemma uint_wrap64: "uint (t + c :: 64 word) = wrap64 (uint c) (uint t)"
  unfolding wrap64_def by (simp add: uint_plus_if')

lemma quarter_select:
  fixes t t' :: "64 word"
  shows "\<exists>m::nat. 2 ^ 62 \<le> uint (t + of_nat m * 13835058055282163712) \<and>
     uint (t + of_nat m * 13835058055282163712) \<le> 3 * 2 ^ 62 \<and>
     2 ^ 61 \<le> uint (t' + of_nat m * 13835058055282163712) \<and>
     uint (t' + of_nat m * 13835058055282163712) \<le> 7 * 2 ^ 61"
proof -
  have u: "0 \<le> uint t" "uint t < 2 ^ 64" "0 \<le> uint t'" "uint t' < 2 ^ 64"
    using uint_lt2p [of t] uint_lt2p [of t'] by simp_all
  obtain c where c: "c \<in> {0, 13835058055282163712, 9223372036854775808, 4611686018427387904}"
    "2 ^ 62 \<le> wrap64 c (uint t)" "wrap64 c (uint t) \<le> 3 * 2 ^ 62"
    "2 ^ 61 \<le> wrap64 c (uint t')" "wrap64 c (uint t') \<le> 7 * 2 ^ 61"
    using quarter_select_int [OF u] by blast
  have m0: "uint (of_nat 0 * 13835058055282163712 :: 64 word) = 0" by simp
  have m1: "uint (of_nat 1 * 13835058055282163712 :: 64 word) = 13835058055282163712" by simp
  have m2: "uint (of_nat 2 * 13835058055282163712 :: 64 word) = 9223372036854775808" by simp
  have m3: "uint (of_nat 3 * 13835058055282163712 :: 64 word) = 4611686018427387904" by simp
  from c(1) obtain m :: nat where "uint (of_nat m * 13835058055282163712 :: 64 word) = c"
    using m0 m1 m2 m3 by blast
  then show ?thesis using c(2-5) unfolding uint_wrap64 by auto
qed

lemma geobm_while_total: "geobm_while rdata (a, b, Fin 2) \<noteq> None"
proof -
  define B :: "64 word" where "B = 13835058055282163712"
  obtain m :: nat where m: "2 ^ 62 \<le> uint (lcg_next (r rdata) + of_nat m * B)"
    "uint (lcg_next (r rdata) + of_nat m * B) \<le> 3 * 2 ^ 62"
    "2 ^ 61 \<le> uint (lcg_next (lcg_next (r rdata)) + of_nat m * B)"
    "uint (lcg_next (lcg_next (r rdata)) + of_nat m * B) \<le> 7 * 2 ^ 61"
    unfolding B_def using quarter_select [of "lcg_next (r rdata)" "lcg_next (lcg_next (r rdata))"]
    by blast
  define s where "s = r rdata + of_nat m * B"
  have s1: "lcg_next s = lcg_next (r rdata) + of_nat m * B"
    unfolding s_def B_def by (rule lcg_next_shift)
  have s2: "lcg_next (lcg_next s) = lcg_next (lcg_next (r rdata)) + of_nat m * B"
    unfolding s1 B_def by (rule lcg_next_shift)
  have small: "\<not> dge (geobm_w s) (Fin 1)"
    using m(1,2) [folded s1] m(3,4) [folded s2] by (rule geobm_radius_small)
  have "2 * (m * 2 ^ 61) = m * 2 ^ 62" by simp
  then have "(lcg_next ^^ (2 * (m * 2 ^ 61))) (r rdata) = s"
    unfolding s_def B_def by (simp only: lcg_quarter)
  then have "\<not> dge (geobm_w ((lcg_next ^^ (2 * (m * 2 ^ 61))) (r rdata))) (Fin 1)"
    using small by simp
  moreover have "dge (Fin 2) (Fin 1)" by simp
  ultimately show ?thesis by (rule geobm_while_returns_if [rotated])
qed

subsection \<open>The Box-Muller batch loops\<close>

declare common_for.simps [simp del] geobm_for.simps [simp del]

lemma common_for_done: "\<not> i < n \<Longrightarrow> common_for E n isEven i rdata rbuf = Inr (rdata, rbuf)"
  by (subst common_for.simps) simp

lemma common_for_step:
  assumes "i < n" "i + 2 \<le> INT_MAX"
  shows "common_for E n isEven i rdata rbuf =
     common_for E n isEven (i + 2) (snd (random_lcg_uniform (snd (random_lcg_uniform rdata))))
       (if i < n - 2 \<or> 0 < isEven then
          (rbuf(i := fst (trig_pair E (fst (random_lcg_uniform rdata))
                            (fst (random_lcg_uniform (snd (random_lcg_uniform rdata)))))))
            (i + 1 := snd (trig_pair E (fst (random_lcg_uniform rdata))
                            (fst (random_lcg_uniform (snd (random_lcg_uniform rdata))))))
        else rbuf(i := fst (trig_pair E (fst (random_lcg_uniform rdata))
                            (fst (random_lcg_uniform (snd (random_lcg_uniform rdata)))))))"
  using assms
  by (subst common_for.simps) (simp add: trig_pair_def Let_def split: prod.splits)

lemma uniform_seq_two:
  "uniform_seq (Suc (Suc k)) rdata =
     (fst (random_lcg_uniform rdata) # fst (random_lcg_uniform (snd (random_lcg_uniform rdata)))
        # fst (uniform_seq k (snd (random_lcg_uniform (snd (random_lcg_uniform rdata))))),
      snd (uniform_seq k (snd (random_lcg_uniform (snd (random_lcg_uniform rdata))))))"
  by (simp add: Let_def split: prod.splits)

lemma uniform_seq_Suc:
  "uniform_seq (Suc k) rdata =
     (fst (random_lcg_uniform rdata) # fst (uniform_seq k (snd (random_lcg_uniform rdata))),
      snd (uniform_seq k (snd (random_lcg_uniform rdata))))"
  by (simp add: Let_def split: prod.splits)

lemma length_uniform_seq: "length (fst (uniform_seq k rdata)) = k"
  by (induction k arbitrary: rdata) (simp_all add: uniform_seq_Suc del: uniform_seq.simps(2))

lemma length_trig_pairs: "length (trig_pairs E xs) = 2 * (length xs div 2)"
  by (induction E xs rule: trig_pairs.induct) simp_all

lemma pair_write_iff:
  fixes i n isEven :: int
  assumes "even i" "i < n" "isEven = (if even n then 1 else 0)"
  shows "(i < n - 2 \<or> 0 < isEven) \<longleftrightarrow> i + 1 < n"
proof (cases "even n")
  case True
  have "i + 1 < n" using assms(1,2) True by presburger
  then show ?thesis using assms True by auto
next
  case False
  have "i + 1 \<noteq> n - 1" using assms(1) False by presburger
  then show ?thesis using assms False by auto
qed

lemma common_for_trig:
  assumes "even i" "n < INT_MAX" "isEven = (if even n then 1 else 0)" "p = nat ((n - i + 1) div 2)"
  shows "common_for E n isEven i rdata rbuf =
     Inr (snd (uniform_seq (2 * p) rdata),
          \<lambda>j. if i \<le> j \<and> j < n then trig_pairs E (fst (uniform_seq (2 * p) rdata)) ! nat (j - i)
               else rbuf j)"
  using assms
proof (induction p arbitrary: i rdata rbuf)
  case 0
  then have "\<not> i < n" by simp
  then show ?case by (auto simp: common_for_done intro!: ext)
next
  case (Suc p)
  have lt: "i < n" using Suc.prems(4) by (simp split: if_splits)
  have le: "i + 2 \<le> INT_MAX" using lt Suc.prems(2) by simp
  have p: "p = nat ((n - (i + 2) + 1) div 2)" using Suc.prems(4) by simp
  have ev: "even (i + 2)" using Suc.prems(1) by simp
  note wr = pair_write_iff [OF Suc.prems(1) lt Suc.prems(3)]
  note ih = Suc.IH [OF ev Suc.prems(2,3) p]
  have idx: "nat (j - i) = Suc (Suc (nat (j - (i + 2))))" if "i + 2 \<le> j" for j
    using that by simp
  have two: "2 * Suc p = Suc (Suc (2 * p))" by simp
  show ?case
    unfolding common_for_step [OF lt le] ih wr two uniform_seq_two
    using lt by (auto simp: idx intro!: ext)
qed


lemma geobm_for_done:
  "\<not> i < n \<Longrightarrow> geobm_for E n isEven i rdata xs rbuf = Some (Inr (rdata, rbuf))"
  by (subst geobm_for.simps) simp

lemma geobm_for_None:
  "i < n \<Longrightarrow> geobm_while rdata (fst xs, snd xs, Fin 2) = None \<Longrightarrow>
     geobm_for E n isEven i rdata xs rbuf = None"
  by (subst geobm_for.simps) simp

lemma geobm_for_step:
  assumes "i < n" "i + 2 \<le> INT_MAX"
    and "geobm_while rdata (fst xs, snd xs, Fin 2) = Some (rdata', x1, x2, w0)"
  shows "geobm_for E n isEven i rdata xs rbuf =
     geobm_for E n isEven (i + 2) rdata' (x1, x2)
       (if i < n - 2 \<or> 0 < isEven then
          (rbuf(i := dmul x1 (c_sqrt E (ddiv (dmul (Fin (- 2)) (c_log E w0)) w0))))
            (i + 1 := dmul x2 (c_sqrt E (ddiv (dmul (Fin (- 2)) (c_log E w0)) w0)))
        else rbuf(i := dmul x1 (c_sqrt E (ddiv (dmul (Fin (- 2)) (c_log E w0)) w0))))"
  using assms by (subst geobm_for.simps) (simp add: Let_def)

lemma geobm_for_cases:
  assumes "even i" "n < INT_MAX" "isEven = (if even n then 1 else 0)" "p = nat ((n - i + 1) div 2)"
  shows "(\<forall>rbuf. geobm_for E n isEven i rdata xs rbuf = None) \<or>
     (\<exists>rdata' vs. length vs = nat (n - i) \<and>
        (\<forall>rbuf. geobm_for E n isEven i rdata xs rbuf =
           Some (Inr (rdata', \<lambda>j. if i \<le> j \<and> j < n then vs ! nat (j - i) else rbuf j))))"
  using assms
proof (induction p arbitrary: i rdata xs)
  case 0
  then have "\<not> i < n" by simp
  then have "\<forall>rbuf. geobm_for E n isEven i rdata xs rbuf =
      Some (Inr (rdata, \<lambda>j. if i \<le> j \<and> j < n then [] ! nat (j - i) else rbuf j))"
    by (auto simp: geobm_for_done intro!: ext)
  moreover have "length ([] :: double list) = nat (n - i)" using \<open>\<not> i < n\<close> by simp
  ultimately show ?case by blast
next
  case (Suc p)
  have lt: "i < n" using Suc.prems(4) by (simp split: if_splits)
  have le: "i + 2 \<le> INT_MAX" using lt Suc.prems(2) by simp
  have p: "p = nat ((n - (i + 2) + 1) div 2)" using Suc.prems(4) by simp
  have ev: "even (i + 2)" using Suc.prems(1) by simp
  note wr = pair_write_iff [OF Suc.prems(1) lt Suc.prems(3)]
  show ?case
  proof (cases "geobm_while rdata (fst xs, snd xs, Fin 2)")
    case None
    then show ?thesis using geobm_for_None [OF lt] by blast
  next
    case (Some res)
    obtain rd' x1 x2 w0 where res: "res = (rd', x1, x2, w0)" by (cases res) auto
    define w where "w = c_sqrt E (ddiv (dmul (Fin (- 2)) (c_log E w0)) w0)"
    note step = geobm_for_step [OF lt le Some [unfolded res], of E isEven, folded w_def, unfolded wr]
    from Suc.IH [OF ev Suc.prems(2,3) p, of rd' "(x1, x2)"]
    show ?thesis
    proof
      assume "\<forall>rbuf. geobm_for E n isEven (i + 2) rd' (x1, x2) rbuf = None"
      then show ?thesis by (simp add: step)
    next
      assume "\<exists>rdata' vs. length vs = nat (n - (i + 2)) \<and>
        (\<forall>rbuf. geobm_for E n isEven (i + 2) rd' (x1, x2) rbuf =
           Some (Inr (rdata', \<lambda>j. if i + 2 \<le> j \<and> j < n then vs ! nat (j - (i + 2)) else rbuf j)))"
      then obtain rd'' vs where vs: "length vs = nat (n - (i + 2))"
        "\<And>rbuf. geobm_for E n isEven (i + 2) rd' (x1, x2) rbuf =
           Some (Inr (rd'', \<lambda>j. if i + 2 \<le> j \<and> j < n then vs ! nat (j - (i + 2)) else rbuf j))"
        by blast
      define ws where "ws = (if i + 1 < n then dmul x1 w # dmul x2 w # vs else [dmul x1 w])"
      have len: "length ws = nat (n - i)" using lt vs(1) by (auto simp: ws_def)
      have idx: "nat (j - i) = Suc (Suc (nat (j - (i + 2))))" if "i + 2 \<le> j" for j
        using that by simp
      have "geobm_for E n isEven i rdata xs rbuf =
           Some (Inr (rd'', \<lambda>j. if i \<le> j \<and> j < n then ws ! nat (j - i) else rbuf j))" for rbuf
        unfolding step vs(2) using lt by (auto simp: ws_def idx intro!: ext)
      then show ?thesis using len by blast
    qed
  qed
qed


lemma c_rem_isEven: "0 \<le> n \<Longrightarrow> c_rem (n + 1) 2 = (if even n then 1 else 0)"
  by (auto simp: c_rem_def sgn_if mod_2_eq_odd)

lemma normal_simd_trig:
  assumes "0 \<le> n" "n < INT_MAX" "A5_CCOL_USE_GEOBM E \<noteq> 1"
  shows "random_lcg_normal_simd E rdata n rbuf =
     Some (Inr (snd (uniform_seq (2 * nat ((n + 1) div 2)) rdata),
       \<lambda>j. if 0 \<le> j \<and> j < n
            then trig_pairs E (fst (uniform_seq (2 * nat ((n + 1) div 2)) rdata)) ! nat j
            else rbuf j))"
proof -
  have "common_for E n (c_rem (n + 1) 2) 0 rdata rbuf =
     Inr (snd (uniform_seq (2 * nat ((n + 1) div 2)) rdata),
       \<lambda>j. if 0 \<le> j \<and> j < n
            then trig_pairs E (fst (uniform_seq (2 * nat ((n + 1) div 2)) rdata)) ! nat (j - 0)
            else rbuf j)"
    by (rule common_for_trig) (use assms c_rem_isEven in simp_all)
  then show ?thesis using assms unfolding diff_zero by (simp add: random_lcg_normal_simd_def)
qed

lemma normal_simd_cases:
  assumes "0 \<le> n" "n < INT_MAX"
  shows "(\<forall>rbuf. random_lcg_normal_simd E rdata n rbuf = None) \<or>
     (\<exists>rdata' vs. length vs = nat n \<and>
        (\<forall>rbuf. random_lcg_normal_simd E rdata n rbuf =
           Some (Inr (rdata', \<lambda>j. if 0 \<le> j \<and> j < n then vs ! nat j else rbuf j))))"
proof (cases "A5_CCOL_USE_GEOBM E = 1")
  case True
  have "(\<forall>rbuf. geobm_for E n (c_rem (n + 1) 2) 0 rdata (NaN, NaN) rbuf = None) \<or>
     (\<exists>rdata' vs. length vs = nat (n - 0) \<and>
        (\<forall>rbuf. geobm_for E n (c_rem (n + 1) 2) 0 rdata (NaN, NaN) rbuf =
           Some (Inr (rdata', \<lambda>j. if 0 \<le> j \<and> j < n then vs ! nat (j - 0) else rbuf j))))"
    by (rule geobm_for_cases) (use assms c_rem_isEven in simp_all)
  then show ?thesis using assms True unfolding diff_zero by (simp add: random_lcg_normal_simd_def)
next
  case False
  define us where "us = trig_pairs E (fst (uniform_seq (2 * nat ((n + 1) div 2)) rdata))"
  have "nat n \<le> 2 * nat ((n + 1) div 2)" using assms(1) by simp
  then have len: "length (take (nat n) us) = nat n"
    by (simp add: us_def length_trig_pairs length_uniform_seq)
  have "random_lcg_normal_simd E rdata n rbuf =
      Some (Inr (snd (uniform_seq (2 * nat ((n + 1) div 2)) rdata),
        \<lambda>j. if 0 \<le> j \<and> j < n then take (nat n) us ! nat j else rbuf j))" for rbuf
    unfolding normal_simd_trig [OF assms False] us_def [symmetric]
    by (auto intro!: ext)
  then show ?thesis using len by blast
qed

lemma normal_simd_nonpos:
  "n \<le> 0 \<Longrightarrow> random_lcg_normal_simd E rdata n rbuf = Some (Inr (rdata, rbuf))"
  by (simp add: random_lcg_normal_simd_def INT_MAX_def geobm_for_done common_for_done Let_def)

lemma uniform_simd_nonpos: "n \<le> 0 \<Longrightarrow> random_lcg_uniform_simd rdata n rbuf = (rdata, rbuf)"
  by (simp add: random_lcg_uniform_simd_def uniform_loop.simps [of n 0])


text \<open>The batch loop of the geometric form returns, and so does the batch call.\<close>

lemma geobm_for_returns: "geobm_for E n isEven i rdata xs rbuf \<noteq> None"
proof (induction "nat (n - i)" arbitrary: i rdata xs rbuf rule: less_induct)
  case less
  show ?case
  proof (cases "i < n")
    case False
    then show ?thesis by (simp add: geobm_for_done)
  next
    case True
    obtain res where "geobm_while rdata (fst xs, snd xs, Fin 2) = Some res"
      using geobm_while_total [of rdata "fst xs" "snd xs"] by blast
    then obtain rd' x1 x2 w0 where
      w: "geobm_while rdata (fst xs, snd xs, Fin 2) = Some (rd', x1, x2, w0)"
      by (cases res) auto
    show ?thesis
    proof (cases "INT_MAX < i + 2")
      case over: True
      show ?thesis by (subst geobm_for.simps) (simp add: w Let_def True over)
    next
      case False
      have "nat (n - (i + 2)) < nat (n - i)" using True by simp
      from less [OF this] show ?thesis
        by (subst geobm_for.simps) (simp add: w Let_def True False)
    qed
  qed
qed

lemma normal_simd_returns: "random_lcg_normal_simd E rdata n rbuf \<noteq> None"
  using geobm_for_returns [of E n "c_rem (n + 1) 2" 0 rdata "(NaN, NaN)" rbuf]
  by (auto simp: random_lcg_normal_simd_def Let_def)

subsection \<open>The normal batch: footprint and values\<close>

text \<open>
  Claim C3, as stated, covers every \<open>n \<ge> 0\<close>. For \<open>n = INT_MAX\<close> the first statement of the
  batch function, \<^verbatim>\<open>isEven = (n+1) % 2\<close>, overflows \<^verbatim>\<open>int\<close>: the call has no defined
  behaviour.
\<close>

theorem normal_batch_overflow:
  "random_lcg_normal_simd (ref_env 0) \<lparr>r = 1\<rparr> 2147483647 (\<lambda>_. NaN) = Some (Inl SignedOverflow)"
  by (simp add: random_lcg_normal_simd_def INT_MAX_def)

text \<open>
  Claim C3, amended. For every engine state, every \<open>0 \<le> n < INT_MAX\<close> and both forms of the
  transform, the batch call returns, and there are \<open>n\<close> values such that, whatever the memory
  held, it returns with these values in the cells \<open>0 \<dots> n - 1\<close> and every other cell as it
  was. So it writes exactly \<open>out[0..n)\<close> and, for odd \<open>n\<close>, does not store the second
  element of the last pair (cell \<open>n\<close> keeps its content).
\<close>

theorem normal_batch_footprint:
  assumes "0 \<le> n" "n < INT_MAX"
  shows "\<exists>rdata' vs. length vs = nat n \<and>
     (\<forall>rbuf. random_lcg_normal_simd E rdata n rbuf =
        Some (Inr (rdata', \<lambda>j. if 0 \<le> j \<and> j < n then vs ! nat j else rbuf j)))"
  using normal_simd_cases [OF assms, of E rdata] normal_simd_returns [of E rdata n] by blast

text \<open>The geometric form at \<open>n = 3\<close>: three cells written, cell \<open>3\<close> and all others kept.\<close>

theorem normal_batch_footprint_witness:
  "(0::int) \<le> 3 \<and> 3 < INT_MAX \<and> A5_CCOL_USE_GEOBM (ref_env 1) = 1 \<and>
   (\<exists>rdata' vs. length vs = 3 \<and>
      (\<forall>rbuf. random_lcg_normal_simd (ref_env 1) \<lparr>r = 1\<rparr> 3 rbuf =
         Some (Inr (rdata', \<lambda>j. if 0 \<le> j \<and> j < 3 then vs ! nat j else rbuf j))))"
proof -
  have h: "(0::int) \<le> 3" "3 < INT_MAX" "A5_CCOL_USE_GEOBM (ref_env 1) = 1"
    by (simp_all add: INT_MAX_def ref_env_def)
  have n: "nat 3 = 3" by simp
  from normal_batch_footprint [OF h(1,2), of "ref_env 1" "\<lparr>r = 1\<rparr>", unfolded n]
  show ?thesis using h by blast
qed

text \<open>
  Claim C4. Under the common (trigonometric) form the batch draws \<open>2 * ceil(n / 2)\<close>
  uniforms in sequence and cell \<open>j < n\<close> holds element \<open>j\<close> of \<open>trig_pairs\<close> of them: pair \<open>k\<close>
  is made from the consecutive uniforms \<open>x1\<close>, \<open>x2\<close> number \<open>2 k\<close> and \<open>2 k + 1\<close>, its first
  element is \<open>w * s\<close> with \<open>w = sqrt(-2 log x1)\<close>, \<open>s = cos(2 pi x2)\<close>, its second
  \<open>w * sqrt(1 - s * s)\<close> if \<open>x2 < 0.5\<close> and \<open>-w * sqrt(1 - s * s)\<close> otherwise.
\<close>

theorem trig_batch_pairs:
  assumes "0 \<le> n" "n < INT_MAX" "A5_CCOL_USE_GEOBM E \<noteq> 1"
  shows "\<exists>out. random_lcg_normal_simd E rdata n rbuf =
           Some (Inr (snd (uniform_seq (2 * nat ((n + 1) div 2)) rdata), out)) \<and>
         (\<forall>j. 0 \<le> j \<and> j < n \<longrightarrow>
            out j = trig_pairs E (fst (uniform_seq (2 * nat ((n + 1) div 2)) rdata)) ! nat j)"
  unfolding normal_simd_trig [OF assms] by simp

theorem trig_batch_pairs_witness:
  "(0::int) \<le> 3 \<and> 3 < INT_MAX \<and> A5_CCOL_USE_GEOBM (ref_env 0) \<noteq> 1 \<and>
   (\<exists>out. random_lcg_normal_simd (ref_env 0) \<lparr>r = 1\<rparr> 3 (\<lambda>_. NaN) =
           Some (Inr (snd (uniform_seq 4 \<lparr>r = 1\<rparr>), out)) \<and>
      out 0 = trig_pairs (ref_env 0) (fst (uniform_seq 4 \<lparr>r = 1\<rparr>)) ! 0 \<and>
      out 1 = trig_pairs (ref_env 0) (fst (uniform_seq 4 \<lparr>r = 1\<rparr>)) ! 1 \<and>
      out 2 = trig_pairs (ref_env 0) (fst (uniform_seq 4 \<lparr>r = 1\<rparr>)) ! 2)"
proof -
  have h: "(0::int) \<le> 3" "3 < INT_MAX" "A5_CCOL_USE_GEOBM (ref_env 0) \<noteq> 1"
    by (simp_all add: INT_MAX_def ref_env_def)
  have n: "2 * nat ((3 + 1) div 2) = (4::nat)" by simp
  from trig_batch_pairs [OF h, of "\<lparr>r = 1\<rparr>" "\<lambda>_. NaN", unfolded n] obtain out
    where out: "random_lcg_normal_simd (ref_env 0) \<lparr>r = 1\<rparr> 3 (\<lambda>_. NaN) =
           Some (Inr (snd (uniform_seq 4 \<lparr>r = 1\<rparr>), out))"
      "\<And>j. 0 \<le> j \<and> j < 3 \<Longrightarrow> out j = trig_pairs (ref_env 0) (fst (uniform_seq 4 \<lparr>r = 1\<rparr>)) ! nat j"
    by blast
  have "out 0 = trig_pairs (ref_env 0) (fst (uniform_seq 4 \<lparr>r = 1\<rparr>)) ! 0" using out(2) [of 0] by simp
  moreover have "out 1 = trig_pairs (ref_env 0) (fst (uniform_seq 4 \<lparr>r = 1\<rparr>)) ! 1" using out(2) [of 1] by simp
  moreover have "out 2 = trig_pairs (ref_env 0) (fst (uniform_seq 4 \<lparr>r = 1\<rparr>)) ! 2" using out(2) [of 2] by simp
  ultimately show ?thesis using h out(1) by blast
qed

subsection \<open>Degenerate batch sizes, scalar and batch forms, teardown\<close>

text \<open>
  Claim C8, as stated, makes a negative \<open>n\<close> a fatal error. The loops test \<open>i < n\<close> before
  their first round, so a call with \<open>n = -1\<close> returns normally, nothing written and the
  state as it was.
\<close>

theorem negative_batch_returns:
  "random_lcg_uniform_simd \<lparr>r = 1\<rparr> (- 1) (\<lambda>_. NaN) = (\<lparr>r = 1\<rparr>, \<lambda>_. NaN) \<and>
   random_lcg_normal_simd (ref_env 1) \<lparr>r = 1\<rparr> (- 1) (\<lambda>_. NaN) = Some (Inr (\<lparr>r = 1\<rparr>, \<lambda>_. NaN))"
  by (simp add: uniform_simd_nonpos normal_simd_nonpos)

text \<open>
  Claim C8, amended. A batch request with \<open>n = 0\<close> succeeds trivially, and so does one with a
  negative \<open>n\<close>: the uniform and the normal batch return normally, write nothing and leave the
  engine state unchanged.
\<close>

theorem nonpositive_batch_noop:
  "n \<le> 0 \<Longrightarrow>
     random_lcg_uniform_simd rdata n rbuf = (rdata, rbuf) \<and>
     random_lcg_normal_simd E rdata n rbuf = Some (Inr (rdata, rbuf))"
  by (simp add: uniform_simd_nonpos normal_simd_nonpos)

theorem nonpositive_batch_noop_witness:
  "(0::int) \<le> 0 \<and>
   random_lcg_uniform_simd \<lparr>r = 1\<rparr> 0 (\<lambda>_. NaN) = (\<lparr>r = 1\<rparr>, \<lambda>_. NaN) \<and>
   random_lcg_normal_simd (ref_env 1) \<lparr>r = 1\<rparr> 0 (\<lambda>_. NaN) = Some (Inr (\<lparr>r = 1\<rparr>, \<lambda>_. NaN))"
  using nonpositive_batch_noop [of 0 "\<lparr>r = 1\<rparr>" "\<lambda>_. NaN" "ref_env 1"] by simp

lemma uniform_simd_seq:
  "0 \<le> n \<Longrightarrow> random_lcg_uniform_simd rdata n rbuf =
     (snd (uniform_seq (nat n) rdata),
      \<lambda>j. if 0 \<le> j \<and> j < n then fst (uniform_seq (nat n) rdata) ! nat j else rbuf j)"
  using uniform_loop_seq [of 0 n rdata rbuf] unfolding diff_zero
  by (simp add: random_lcg_uniform_simd_def)

lemma uniform_simd_one:
  "random_lcg_uniform_simd rdata 1 rbuf =
     (snd (random_lcg_uniform rdata), rbuf(0 := fst (random_lcg_uniform rdata)))"
proof -
  have "uniform_loop 1 1 s m = (s, m)" for s m
    by (simp add: uniform_loop.simps [of 1 1])
  then show ?thesis
    by (simp add: random_lcg_uniform_simd_def uniform_loop.simps [of 1 0] lcg_uniform_eq
        random_lcg_integer_def Let_def)
qed

lemma normal_scalar_batch:
  "random_lcg_normal E rdata =
     (case random_lcg_normal_simd E rdata 1 rbuf of
        None \<Rightarrow> None
      | Some (Inl e) \<Rightarrow> Some (Inl e)
      | Some (Inr (rdata', out)) \<Rightarrow> Some (Inr (out 0, rdata')))"
proof -
  have h: "(0::int) \<le> 1" "1 < INT_MAX" by (simp_all add: INT_MAX_def)
  from normal_simd_cases [OF h, of E rdata] show ?thesis
  proof
    assume "\<forall>rbuf. random_lcg_normal_simd E rdata 1 rbuf = None"
    then show ?thesis by (simp add: random_lcg_normal_def)
  next
    assume "\<exists>rdata' vs. length vs = nat 1 \<and>
        (\<forall>rbuf. random_lcg_normal_simd E rdata 1 rbuf =
           Some (Inr (rdata', \<lambda>j. if 0 \<le> j \<and> j < 1 then vs ! nat j else rbuf j)))"
    then obtain rdata' vs where
      "\<And>rbuf. random_lcg_normal_simd E rdata 1 rbuf =
           Some (Inr (rdata', \<lambda>j. if 0 \<le> j \<and> j < 1 then vs ! nat j else rbuf j))"
      by blast
    then show ?thesis by (simp add: random_lcg_normal_def)
  qed
qed

text \<open>
  Claim C10. For every \<open>n \<ge> 0\<close> the uniform batch stores in the cells \<open>0 \<dots> n - 1\<close> the very
  values of \<open>n\<close> scalar calls made in sequence from the same state, and ends in the same
  state; the scalar \<^verbatim>\<open>uniform\<close> and \<^verbatim>\<open>normal\<close> return cell 0 and the state of the
  corresponding batch call with \<open>n = 1\<close>, whatever buffer that call is given.
\<close>

theorem uniform_batch_is_sequence:
  assumes "0 \<le> n"
  shows "random_lcg_uniform_simd rdata n rbuf =
       (snd (uniform_seq (nat n) rdata),
        \<lambda>j. if 0 \<le> j \<and> j < n then fst (uniform_seq (nat n) rdata) ! nat j else rbuf j)
     \<and> random_lcg_uniform rdata =
       (snd (random_lcg_uniform_simd rdata 1 rbuf) 0, fst (random_lcg_uniform_simd rdata 1 rbuf))
     \<and> random_lcg_normal E rdata =
       (case random_lcg_normal_simd E rdata 1 rbuf of
          None \<Rightarrow> None
        | Some (Inl e) \<Rightarrow> Some (Inl e)
        | Some (Inr (rdata', out)) \<Rightarrow> Some (Inr (out 0, rdata')))"
proof (intro conjI)
  show "random_lcg_uniform_simd rdata n rbuf =
       (snd (uniform_seq (nat n) rdata),
        \<lambda>j. if 0 \<le> j \<and> j < n then fst (uniform_seq (nat n) rdata) ! nat j else rbuf j)"
    by (rule uniform_simd_seq [OF assms])
  show "random_lcg_uniform rdata =
       (snd (random_lcg_uniform_simd rdata 1 rbuf) 0, fst (random_lcg_uniform_simd rdata 1 rbuf))"
    by (simp add: uniform_simd_one)
qed (rule normal_scalar_batch)

theorem uniform_batch_is_sequence_witness:
  "(0::int) \<le> 2 \<and>
   random_lcg_uniform_simd \<lparr>r = 1\<rparr> 2 (\<lambda>_. NaN) =
     (snd (uniform_seq 2 \<lparr>r = 1\<rparr>),
      \<lambda>j. if 0 \<le> j \<and> j < 2 then fst (uniform_seq 2 \<lparr>r = 1\<rparr>) ! nat j else NaN)"
proof -
  have h: "(0::int) \<le> 2" by simp
  have n: "nat 2 = 2" by simp
  note t = conjunct1 [OF uniform_batch_is_sequence [OF h, of "\<lparr>r = 1\<rparr>" "\<lambda>_. NaN" "ref_env 0"]]
  show ?thesis using h t unfolding n by (rule conjI)
qed

text \<open>
  Claim C9, on the teardown modelled from the specification. \<^verbatim>\<open>destroy\<close> on a released
  engine aborts; on a live linear-congruential engine it releases nothing and leaves the
  stream as it is; on a live library-backed engine it releases the handle once, and a second
  call aborts rather than releasing it again.
\<close>

theorem destroy_lifecycle:
  "(released e \<longrightarrow> destroy (e, k) = Inl Abort) \<and>
   (\<not> released e \<and> variant e = LinearCongruential \<longrightarrow>
      destroy (e, k) = Inr (e\<lparr>released := True\<rparr>, k)) \<and>
   (\<not> released e \<and> owns_handle (variant e) \<longrightarrow>
      destroy (e, k) = Inr (e\<lparr>released := True\<rparr>, k + 1) \<and>
      destroy (e\<lparr>released := True\<rparr>, k + 1) = Inl Abort)"
  by (simp add: destroy_def owns_handle_def)

theorem destroy_lifecycle_witness:
  "destroy (\<lparr>variant = LinearCongruential, stream = \<lparr>r = 1\<rparr>, released = False\<rparr>, 0) =
     Inr (\<lparr>variant = LinearCongruential, stream = \<lparr>r = 1\<rparr>, released = True\<rparr>, 0) \<and>
   destroy (\<lparr>variant = VectorLibrary, stream = \<lparr>r = 1\<rparr>, released = False\<rparr>, 0) =
     Inr (\<lparr>variant = VectorLibrary, stream = \<lparr>r = 1\<rparr>, released = True\<rparr>, 1) \<and>
   destroy (\<lparr>variant = VectorLibrary, stream = \<lparr>r = 1\<rparr>, released = True\<rparr>, 1) = Inl Abort"
  using destroy_lifecycle [of "\<lparr>variant = LinearCongruential, stream = \<lparr>r = 1\<rparr>, released = False\<rparr>" 0]
    destroy_lifecycle [of "\<lparr>variant = VectorLibrary, stream = \<lparr>r = 1\<rparr>, released = False\<rparr>" 0]
  by (simp add: owns_handle_def)

end
